theory Spec2Isabelle
  imports Main "HOL-Library.Multiset"
begin

section \<open>Outcomes of a call\<close>

text \<open>
  Every operation of \<^verbatim>\<open>Sorting.h\<close> either returns or halts. Four ways of halting are
  kept apart: a failed \<^verbatim>\<open>MIST_ASSERT\<close>, an element access outside the storage the access
  goes to (\<^verbatim>\<open>operator[]\<close> and iterator dereference are unchecked in C++; the model
  makes every such access a visible outcome), a division by zero, and a signed
  subtraction whose result the type does not hold (undefined behaviour in C++).
\<close>

text \<open>
  Modelled from the spec: \<^verbatim>\<open>MIST_ASSERT\<close> is defined in \<^verbatim>\<open>UtilityMacros.h\<close>, which is not
  among the sources. The specification describes it as a fatal, fail-fast assertion that
  aborts execution immediately, so a failed assertion ends the call with
  \<open>AssertionFailed\<close>.
\<close>

datatype error = AssertionFailed | OutOfBounds | DivisionByZero | SignedOverflow

section \<open>Sortedness check\<close>

text \<open>
  \<^verbatim>\<open>IsSorted(begin, end)\<close>, lines 36-50. The range is the list \<open>xs\<close>; the iterators
  \<^verbatim>\<open>begin\<close> and \<^verbatim>\<open>next\<close> are positions \<open>bgn\<close> and \<open>nxt\<close> in it and \<^verbatim>\<open>end\<close> is
  \<open>length xs\<close>. The loop runs while \<^verbatim>\<open>next != end\<close>.
\<close>

function IsSorted_loop :: "'a::ord list \<Rightarrow> nat \<Rightarrow> nat \<Rightarrow> error + bool" where
  "IsSorted_loop xs bgn nxt =
     (if nxt \<noteq> length xs then
        (if nxt < length xs \<and> bgn < length xs then
           (if xs ! nxt < xs ! bgn then Inr False
            else IsSorted_loop xs (bgn + 1) (nxt + 1))
         else Inl OutOfBounds)
      else Inr True)"
  by pat_completeness auto
termination
  by (relation "measure (\<lambda>(xs, bgn, nxt). length xs - nxt)") auto

declare IsSorted_loop.simps [simp del]

definition IsSorted :: "'a::ord list \<Rightarrow> error + bool" where
  "IsSorted xs =
     (if \<not> (0 \<noteq> length xs) then Inl AssertionFailed
      else IsSorted_loop xs 0 (0 + 1))"

section \<open>Merge sort\<close>

text \<open>\<^verbatim>\<open>Detail::Min\<close>, lines 22-24.\<close>

definition Detail_Min :: "'a::ord \<Rightarrow> 'a \<Rightarrow> 'a" where
  "Detail_Min left right = (if left < right then left else right)"

text \<open>
  The inner \<^verbatim>\<open>while\<close> loop, lines 94-110 (and 163-179 in the pointer overload, which is
  the same text): \<open>readTarget\<close> and \<open>writeTarget\<close> are the contents of the two buffers the
  pointers of that name refer to during one pass. The indices are \<^verbatim>\<open>size_t\<close>; they only
  ever grow by one, and the block bounds computed for a pass stay below three times the
  collection size, so nothing wraps around for a sequence that fits into memory and the
  indices are natural numbers here. The result is the written buffer and the write head.
\<close>

function MergeSort_merge ::
  "'a::ord list \<Rightarrow> 'a list \<Rightarrow> nat \<Rightarrow> nat \<Rightarrow> nat \<Rightarrow> nat \<Rightarrow> nat \<Rightarrow> error + ('a list \<times> nat)" where
  "MergeSort_merge readTarget writeTarget first lastp firstNext lastNext writeHead =
     (if firstNext \<noteq> lastNext \<or> first \<noteq> lastp then
        (if firstNext = lastNext then
           (if first < length readTarget \<and> writeHead < length writeTarget then
              MergeSort_merge readTarget (writeTarget[writeHead := readTarget ! first])
                (first + 1) lastp firstNext lastNext (writeHead + 1)
            else Inl OutOfBounds)
         else if first = lastp then
           (if firstNext < length readTarget \<and> writeHead < length writeTarget then
              MergeSort_merge readTarget (writeTarget[writeHead := readTarget ! firstNext])
                first lastp (firstNext + 1) lastNext (writeHead + 1)
            else Inl OutOfBounds)
         else if \<not> (firstNext < length readTarget \<and> first < length readTarget) then
           Inl OutOfBounds
         else if readTarget ! firstNext < readTarget ! first then
           (if writeHead < length writeTarget then
              MergeSort_merge readTarget (writeTarget[writeHead := readTarget ! firstNext])
                first lastp (firstNext + 1) lastNext (writeHead + 1)
            else Inl OutOfBounds)
         else
           (if writeHead < length writeTarget then
              MergeSort_merge readTarget (writeTarget[writeHead := readTarget ! first])
                (first + 1) lastp firstNext lastNext (writeHead + 1)
            else Inl OutOfBounds))
      else Inr (writeTarget, writeHead))"
  by pat_completeness auto
termination
  by (relation "measure (\<lambda>(rd, wr, first, lastp, firstNext, lastNext, wh).
        (length rd - first) + (length rd - firstNext))") auto

declare MergeSort_merge.simps [simp del]

text \<open>
  The \<^verbatim>\<open>for\<close> loop over the block pairs of one pass, lines 82-111: \<open>i\<close> advances by two
  while \<^verbatim>\<open>i < numBlocks\<close>.
\<close>

function MergeSort_pass ::
  "nat \<Rightarrow> nat \<Rightarrow> nat \<Rightarrow> 'a::ord list \<Rightarrow> 'a list \<Rightarrow> nat \<Rightarrow> nat \<Rightarrow> error + ('a list \<times> nat)" where
  "MergeSort_pass collectionSize blockSize numBlocks readTarget writeTarget i writeHead =
     (if i < numBlocks then
        (case MergeSort_merge readTarget writeTarget
                (i * blockSize) ((i + 1) * blockSize)
                ((i + 1) * blockSize) (Detail_Min ((i + 2) * blockSize) collectionSize)
                writeHead of
           Inl e \<Rightarrow> Inl e
         | Inr (writeTarget', writeHead') \<Rightarrow>
             MergeSort_pass collectionSize blockSize numBlocks readTarget writeTarget'
               (i + 2) writeHead')
      else Inr (writeTarget, writeHead))"
  by pat_completeness auto
termination
  by (relation "measure (\<lambda>(n, bs, numBlocks, rd, wr, i, wh). numBlocks - i)") auto

declare MergeSort_pass.simps [simp del]

text \<open>
  The two buffers of a call. \<^verbatim>\<open>readTarget\<close> and \<^verbatim>\<open>writeTarget\<close> are pointers that are
  swapped after every pass; a pointer is the name of the buffer it refers to and the
  store maps each buffer to its contents.
\<close>

datatype buffer = Collection | WorkingArea

type_synonym 'a store = "buffer \<Rightarrow> 'a list"

text \<open>
  The outer \<^verbatim>\<open>while (blockSize < collectionSize)\<close> loop, lines 77-119. The quotient
  \<^verbatim>\<open>collectionSize / blockSize\<close> is undefined behaviour for a zero block size. The write
  head is reset to zero after the pass.
\<close>

function MergeSort_loop ::
  "nat \<Rightarrow> 'a::ord store \<Rightarrow> buffer \<Rightarrow> buffer \<Rightarrow> nat \<Rightarrow> nat \<Rightarrow> error + ('a store \<times> buffer)" where
  "MergeSort_loop collectionSize store readTarget writeTarget blockSize writeHead =
     (if blockSize < collectionSize then
        (if blockSize = 0 then Inl DivisionByZero
         else
           (case MergeSort_pass collectionSize blockSize (collectionSize div blockSize)
                   (store readTarget) (store writeTarget) 0 writeHead of
              Inl e \<Rightarrow> Inl e
            | Inr (written, _) \<Rightarrow>
                MergeSort_loop collectionSize (store(writeTarget := written))
                  writeTarget readTarget (blockSize + blockSize) 0))
      else Inr (store, readTarget))"
  by pat_completeness auto
termination
  by (relation "measure (\<lambda>(n, store, rd, wr, bs, wh). n - bs)") auto

declare MergeSort_loop.simps [simp del]

text \<open>
  \<^verbatim>\<open>MergeSort(CollectionType* collection)\<close>, lines 61-122. The working area is created
  with \<^verbatim>\<open>collectionSize\<close> value-initialised elements; \<open>init\<close> is that element
  (\<^verbatim>\<open>T()\<close>). After the loop \<^verbatim>\<open>std::copy\<close> writes the buffer that \<^verbatim>\<open>readTarget\<close>
  refers to over the collection.
\<close>

definition MergeSort :: "'a::ord \<Rightarrow> 'a list \<Rightarrow> error + 'a list" where
  "MergeSort init collection =
     (let collectionSize = length collection in
      case MergeSort_loop collectionSize
             (\<lambda>b. case b of Collection \<Rightarrow> collection
                           | WorkingArea \<Rightarrow> replicate collectionSize init)
             Collection WorkingArea 1 0 of
        Inl e \<Rightarrow> Inl e
      | Inr (store, readTarget) \<Rightarrow> Inr ((store(Collection := store readTarget)) Collection))"

text \<open>
  \<^verbatim>\<open>MergeSort(ValueType* begin, ValueType* end)\<close>, lines 130-194: the same loops over the
  range \<open>[begin, end)\<close>, here the list \<open>rng\<close>, followed by an element-wise copy of the
  read buffer to \<^verbatim>\<open>begin\<close>, lines 191-193.
\<close>

function MergeSort_copy_back ::
  "nat \<Rightarrow> 'a store \<Rightarrow> buffer \<Rightarrow> nat \<Rightarrow> error + 'a store" where
  "MergeSort_copy_back collectionSize store readTarget i =
     (if i < collectionSize then
        (if i < length (store readTarget) \<and> i < length (store Collection) then
           MergeSort_copy_back collectionSize
             (store(Collection := (store Collection)[i := store readTarget ! i]))
             readTarget (i + 1)
         else Inl OutOfBounds)
      else Inr store)"
  by pat_completeness auto
termination
  by (relation "measure (\<lambda>(n, store, rd, i). n - i)") auto

declare MergeSort_copy_back.simps [simp del]

definition MergeSort_range :: "'a::ord \<Rightarrow> 'a list \<Rightarrow> error + 'a list" where
  "MergeSort_range init rng =
     (let collectionSize = length rng in
      case MergeSort_loop collectionSize
             (\<lambda>b. case b of Collection \<Rightarrow> rng
                           | WorkingArea \<Rightarrow> replicate collectionSize init)
             Collection WorkingArea 1 0 of
        Inl e \<Rightarrow> Inl e
      | Inr (store, readTarget) \<Rightarrow>
          (case MergeSort_copy_back collectionSize store readTarget 0 of
             Inl e \<Rightarrow> Inl e
           | Inr store' \<Rightarrow> Inr (store' Collection)))"

text \<open>
  Elements that carry a key and a tag and are compared by key only, as in the
  specification's stability example: the element type's \<^verbatim>\<open>operator<\<close> looks at the key.
\<close>

datatype ('k, 't) keyed = Keyed (key: 'k) (tag: 't)

instantiation keyed :: (ord, type) ord
begin

definition less_eq_keyed :: "('a, 'b) keyed \<Rightarrow> ('a, 'b) keyed \<Rightarrow> bool" where
  "less_eq_keyed a b = (key a \<le> key b)"

definition less_keyed :: "('a, 'b) keyed \<Rightarrow> ('a, 'b) keyed \<Rightarrow> bool" where
  "less_keyed a b = (key a < key b)"

instance ..

end

section \<open>Quick sort\<close>

text \<open>
  The iterators of \<^verbatim>\<open>QuickSort(begin, end)\<close>, lines 203-265, are offsets from \<^verbatim>\<open>begin\<close>
  into the sequence \<open>xs\<close>, so \<^verbatim>\<open>begin\<close> is \<open>0\<close> and \<^verbatim>\<open>end\<close> is \<open>length xs\<close>. They are
  integers because \<^verbatim>\<open>currentRange.second - 1\<close> lies before \<^verbatim>\<open>begin\<close> when the range is
  empty. An iterator may be dereferenced only when it points into the sequence.
\<close>

definition dereferenceable :: "'a list \<Rightarrow> int \<Rightarrow> bool" where
  "dereferenceable xs it = (0 \<le> it \<and> it < int (length xs))"

text \<open>\<^verbatim>\<open>std::swap(*a, *b)\<close> on two dereferenceable iterators.\<close>

definition swap_elements :: "'a list \<Rightarrow> int \<Rightarrow> int \<Rightarrow> 'a list" where
  "swap_elements xs a b = xs[nat a := xs ! nat b, nat b := xs ! nat a]"

text \<open>The scan of one partition pass, the \<^verbatim>\<open>for\<close> loop of lines 235-247.\<close>

function QuickSort_scan ::
  "'a::ord list \<Rightarrow> int \<Rightarrow> int \<Rightarrow> int \<Rightarrow> int \<Rightarrow> error + ('a list \<times> int)" where
  "QuickSort_scan xs pivot second compareTarget firstLargest =
     (if compareTarget \<noteq> second then
        (if \<not> (dereferenceable xs compareTarget \<and> dereferenceable xs pivot) then
           Inl OutOfBounds
         else if xs ! nat compareTarget \<le> xs ! nat pivot \<and> firstLargest \<noteq> pivot
                 \<and> compareTarget \<noteq> pivot then
           (if dereferenceable xs firstLargest then
              QuickSort_scan (swap_elements xs compareTarget firstLargest) pivot second
                (compareTarget + 1) (firstLargest + 1)
            else Inl OutOfBounds)
         else if xs ! nat compareTarget > xs ! nat pivot \<and> firstLargest = pivot then
           QuickSort_scan xs pivot second (compareTarget + 1) compareTarget
         else QuickSort_scan xs pivot second (compareTarget + 1) firstLargest)
      else Inr (xs, firstLargest))"
  by pat_completeness auto
termination
  by (relation "measure (\<lambda>(xs, pivot, second, compareTarget, firstLargest).
        nat (int (length xs) - compareTarget))")
     (auto simp: dereferenceable_def swap_elements_def)

declare QuickSort_scan.simps [simp del]

text \<open>
  One partition pass, lines 226-251: the pivot is the last element of the range, the
  scan starts at the range's first element with \<^verbatim>\<open>firstLargest\<close> at the pivot, and the
  pivot is swapped into \<^verbatim>\<open>firstLargest\<close> afterwards. The result is the sequence and the
  pivot's new position.
\<close>

definition QuickSort_partition ::
  "'a::ord list \<Rightarrow> int \<Rightarrow> int \<Rightarrow> error + ('a list \<times> int)" where
  "QuickSort_partition xs first second =
     (let pivot = second - 1 in
      case QuickSort_scan xs pivot second first pivot of
        Inl e \<Rightarrow> Inl e
      | Inr (xs', firstLargest) \<Rightarrow>
          if dereferenceable xs' firstLargest \<and> dereferenceable xs' pivot then
            Inr (swap_elements xs' firstLargest pivot, firstLargest)
          else Inl OutOfBounds)"

text \<open>
  The two conditional pushes, lines 256-263; the head of the list is the top of the
  \<^verbatim>\<open>std::stack\<close>. \<^verbatim>\<open>std::distance(a, b)\<close> is \<open>b - a\<close>.
\<close>

definition QuickSort_push ::
  "(int \<times> int) list \<Rightarrow> int \<Rightarrow> int \<Rightarrow> int \<Rightarrow> (int \<times> int) list" where
  "QuickSort_push sortingRanges first second pivot =
     (let pushedRight =
            (if second - (pivot + 1) > 1 then (pivot + 1, second) # sortingRanges
             else sortingRanges)
      in if pivot - first > 1 then (first, pivot) # pushedRight else pushedRight)"

text \<open>
  The main loop, lines 220-264. Nothing in its text bounds the number of iterations, so
  the model is a partial function: \<open>None\<close> stands for a loop that never ends.
\<close>

partial_function (option) QuickSort_loop ::
  "(int \<times> int) list \<Rightarrow> 'a::ord list \<Rightarrow> (error + 'a list) option" where
  "QuickSort_loop sortingRanges xs =
     (case sortingRanges of
        [] \<Rightarrow> Some (Inr xs)
      | currentRange # rest \<Rightarrow>
          (case QuickSort_partition xs (fst currentRange) (snd currentRange) of
             Inl e \<Rightarrow> Some (Inl e)
           | Inr (xs', pivot) \<Rightarrow>
               QuickSort_loop
                 (QuickSort_push rest (fst currentRange) (snd currentRange) pivot) xs'))"

declare QuickSort_loop.simps [code]

text \<open>
  \<^verbatim>\<open>QuickSort(begin, end)\<close>; the overload for a collection, lines 270-272, passes
  \<^verbatim>\<open>collection->begin()\<close> and \<^verbatim>\<open>collection->end()\<close> to it.
\<close>

definition QuickSort :: "'a::ord list \<Rightarrow> (error + 'a list) option" where
  "QuickSort xs = QuickSort_loop [(0, int (length xs))] xs"

section \<open>Insertion sort\<close>

text \<open>
  The binary search of lines 318-337. \<^verbatim>\<open>start\<close> and \<^verbatim>\<open>end\<close> are \<^verbatim>\<open>size_t\<close>; the loop is
  entered with \<open>start < en\<close> only (the destination is not empty) and keeps it so, hence
  no difference \<^verbatim>\<open>end - start\<close> or \<^verbatim>\<open>end - 1 - start\<close> wraps around and natural numbers
  give the same values. The result is the final \<open>(start, en)\<close>.
\<close>

function InsertionSort_search ::
  "'a::ord list \<Rightarrow> 'a \<Rightarrow> nat \<Rightarrow> nat \<Rightarrow> error + (nat \<times> nat)" where
  "InsertionSort_search destination element start en =
     (if en - start > 1 then
        (let pivotIndex = start + (en - 1 - start) div 2 in
         if \<not> pivotIndex < length destination then Inl OutOfBounds
         else if element > destination ! pivotIndex then
           (if \<not> (en - (pivotIndex + 1) \<ge> 1) then Inl AssertionFailed
            else InsertionSort_search destination element (pivotIndex + 1) en)
         else
           (if \<not> ((pivotIndex + 1) - start \<ge> 1) then Inl AssertionFailed
            else InsertionSort_search destination element start (pivotIndex + 1)))
      else Inr (start, en))"
  by pat_completeness auto
termination
  by (relation "measure (\<lambda>(destination, element, start, en). en - start)")
     (simp_all add: Let_def, arith)

declare InsertionSort_search.simps [simp del]

text \<open>\<^verbatim>\<open>destination->insert(std::begin(*destination) + i, element)\<close>.\<close>

definition insert_at :: "'a list \<Rightarrow> nat \<Rightarrow> 'a \<Rightarrow> 'a list" where
  "insert_at xs i v = take i xs @ v # drop i xs"

text \<open>The body of the loop over the source, lines 315-346, for one element.\<close>

definition InsertionSort_insert :: "'a::ord list \<Rightarrow> 'a \<Rightarrow> error + 'a list" where
  "InsertionSort_insert destination element =
     (case InsertionSort_search destination element 0 (length destination) of
        Inl e \<Rightarrow> Inl e
      | Inr (start, en) \<Rightarrow>
          (let pivotIndex = start + (en - start) div 2 in
           if \<not> pivotIndex < length destination then Inl OutOfBounds
           else if element > destination ! pivotIndex then
             Inr (insert_at destination (pivotIndex + 1) element)
           else Inr (insert_at destination pivotIndex element)))"

text \<open>The range-based \<^verbatim>\<open>for\<close> loop over the source, line 314.\<close>

fun InsertionSort_loop :: "'a::ord list \<Rightarrow> 'a list \<Rightarrow> error + 'a list" where
  "InsertionSort_loop [] destination = Inr destination"
| "InsertionSort_loop (element # source) destination =
     (case InsertionSort_insert destination element of
        Inl e \<Rightarrow> Inl e
      | Inr destination' \<Rightarrow> InsertionSort_loop source destination')"

text \<open>\<^verbatim>\<open>InsertionSort(source, destination)\<close>, lines 285-348, with its two assertions.\<close>

definition InsertionSort :: "'a::ord list \<Rightarrow> 'a list \<Rightarrow> error + 'a list" where
  "InsertionSort source destination =
     (if \<not> (length destination > 0) then Inl AssertionFailed
      else case IsSorted destination of
        Inl e \<Rightarrow> Inl e
      | Inr sorted_before \<Rightarrow>
          if \<not> sorted_before then Inl AssertionFailed
          else InsertionSort_loop source destination)"

section \<open>Bucket sort\<close>

text \<open>
  \<^verbatim>\<open>BucketSort(begin, end, min, max)\<close>, lines 355-383, is a template over the element
  type and over \<^verbatim>\<open>ValueType\<close>, the type of \<^verbatim>\<open>min\<close> and \<^verbatim>\<open>max\<close>. The model is for signed
  integer types: the elements have \<open>ebits\<close> bits, and \<open>vbits\<close> is the number of bits of the
  type in which \<^verbatim>\<open>max - min\<close> is computed (\<^verbatim>\<open>ValueType\<close> after integer promotion). Values
  are integers, and the two places where the width of a type decides the outcome are
  written out with the two notions below.
\<close>

text \<open>The values of a signed two's-complement type with \<open>bits\<close> bits.\<close>

definition representable :: "nat \<Rightarrow> int \<Rightarrow> bool" where
  "representable bits v = (- (2 ^ (bits - 1)) \<le> v \<and> v < 2 ^ (bits - 1))"

text \<open>
  The conversion of an integer value to a signed type with \<open>bits\<close> bits, which keeps the
  value modulo \<open>2 ^ bits\<close>; line 380 converts the \<^verbatim>\<open>size_t\<close> bucket index to the element
  type this way.
\<close>

definition to_signed :: "nat \<Rightarrow> int \<Rightarrow> int" where
  "to_signed bits v = (v + 2 ^ (bits - 1)) mod 2 ^ bits - 2 ^ (bits - 1)"

text \<open>
  The counting pass, lines 363-370: \<open>current\<close> is the position of the iterator in the
  sequence \<open>xs\<close>, and \<^verbatim>\<open>counts[*current - min]\<close> is an unchecked access; the counts are
  \<^verbatim>\<open>size_t\<close>. Behind the two assertions the difference \<^verbatim>\<open>*current - min\<close> lies between
  zero and \<^verbatim>\<open>max - min\<close>, which line 360 has computed before, so this subtraction does
  not overflow where that one did not.
\<close>

function BucketSort_count ::
  "int list \<Rightarrow> int \<Rightarrow> int \<Rightarrow> nat list \<Rightarrow> nat \<Rightarrow> error + nat list" where
  "BucketSort_count xs minv maxv counts current =
     (if current \<noteq> length xs then
        (if \<not> current < length xs then Inl OutOfBounds
         else if \<not> (xs ! current \<ge> minv) then Inl AssertionFailed
         else if \<not> (xs ! current \<le> maxv) then Inl AssertionFailed
         else if \<not> (0 \<le> xs ! current - minv \<and> xs ! current - minv < int (length counts)) then
           Inl OutOfBounds
         else
           BucketSort_count xs minv maxv
             (counts[nat (xs ! current - minv) := counts ! nat (xs ! current - minv) + 1])
             (current + 1))
      else Inr counts)"
  by pat_completeness auto
termination
  by (relation "measure (\<lambda>(xs, minv, maxv, counts, current). length xs - current)") auto

declare BucketSort_count.simps [simp del]

text \<open>\<^verbatim>\<open>while (counts[currentIndex] == 0) ++currentIndex\<close>, lines 376-378.\<close>

function BucketSort_skip :: "nat list \<Rightarrow> nat \<Rightarrow> error + nat" where
  "BucketSort_skip counts currentIndex =
     (if \<not> currentIndex < length counts then Inl OutOfBounds
      else if counts ! currentIndex = 0 then BucketSort_skip counts (currentIndex + 1)
      else Inr currentIndex)"
  by pat_completeness auto
termination
  by (relation "measure (\<lambda>(counts, currentIndex). length counts - currentIndex)") auto

declare BucketSort_skip.simps [simp del]

text \<open>
  The reconstruction pass, lines 373-382. The assignment \<^verbatim>\<open>(*current) = currentIndex\<close>
  of line 380 stores the bucket index converted to the element type.
\<close>

function BucketSort_rebuild ::
  "nat \<Rightarrow> int list \<Rightarrow> nat list \<Rightarrow> nat \<Rightarrow> nat \<Rightarrow> error + int list" where
  "BucketSort_rebuild ebits xs counts currentIndex current =
     (if current \<noteq> length xs then
        (case BucketSort_skip counts currentIndex of
           Inl e \<Rightarrow> Inl e
         | Inr currentIndex' \<Rightarrow>
             if \<not> current < length xs then Inl OutOfBounds
             else
               BucketSort_rebuild ebits (xs[current := to_signed ebits (int currentIndex')])
                 (counts[currentIndex' := counts ! currentIndex' - 1])
                 currentIndex' (current + 1))
      else Inr xs)"
  by pat_completeness auto
termination
  by (relation "measure (\<lambda>(ebits, xs, counts, currentIndex, current). length xs - current)")
     auto

declare BucketSort_rebuild.simps [simp del]

text \<open>
  \<^verbatim>\<open>BucketSort\<close> itself: the assertion of line 357, the size \<^verbatim>\<open>max - min\<close> of the counts
  array computed in \<^verbatim>\<open>ValueType\<close> at line 360, and the two passes.
\<close>

definition BucketSort :: "nat \<Rightarrow> nat \<Rightarrow> int list \<Rightarrow> int \<Rightarrow> int \<Rightarrow> error + int list" where
  "BucketSort ebits vbits xs minv maxv =
     (if \<not> (maxv > minv) then Inl AssertionFailed
      else if \<not> representable vbits (maxv - minv) then Inl SignedOverflow
      else case BucketSort_count xs minv maxv (replicate (nat (maxv - minv)) 0) 0 of
        Inl e \<Rightarrow> Inl e
      | Inr counts \<Rightarrow> BucketSort_rebuild ebits xs counts 0 0)"

section \<open>Notions used to state what the sorts achieve\<close>

text \<open>The elements of \<open>xs\<close> at the positions \<open>a, \<dots>, b - 1\<close>.\<close>

definition slice :: "'a list \<Rightarrow> nat \<Rightarrow> nat \<Rightarrow> 'a list" where
  "slice xs a b = take (b - a) (drop a xs)"

text \<open>The sequence \<open>xs\<close> with the positions \<open>f, \<dots>, s - 1\<close> put in ascending order.\<close>

definition sort_range :: "'a::linorder list \<Rightarrow> nat \<Rightarrow> nat \<Rightarrow> 'a list" where
  "sort_range xs f s = take f xs @ sort (slice xs f s) @ drop s xs"


text \<open>
  Merging two blocks given as lists, with the comparison of lines 104-109: the head of
  the right block goes first only when it is strictly smaller than the head of the left
  block.
\<close>

fun merge_blocks :: "'a::ord list \<Rightarrow> 'a list \<Rightarrow> 'a list" where
  "merge_blocks [] ys = ys"
| "merge_blocks (x # xs) [] = x # xs"
| "merge_blocks (x # xs) (y # ys) =
     (if y < x then y # merge_blocks (x # xs) ys else x # merge_blocks xs (y # ys))"

text \<open>
  What one pass with block size \<open>bs\<close> leaves in the write buffer, on lists: the merged
  pairs of blocks of the read buffer \<open>rd\<close> as long as a full left block remains, and
  behind them the old contents of the write buffer \<open>wr\<close>.
\<close>

function merge_pass :: "nat \<Rightarrow> 'a::ord list \<Rightarrow> 'a list \<Rightarrow> 'a list" where
  "merge_pass bs rd wr =
     (if bs = 0 \<or> length rd < bs then wr
      else merge_blocks (take bs rd) (take bs (drop bs rd)) @
           merge_pass bs (drop (2 * bs) rd) (drop (2 * bs) wr))"
  by pat_completeness auto
termination
  by (relation "measure (\<lambda>(bs, rd, wr). length rd)") auto

declare merge_pass.simps [simp del]

text \<open>The elements with key \<open>k\<close>, in their order in \<open>xs\<close>.\<close>

definition with_key :: "'k \<Rightarrow> ('k, 't) keyed list \<Rightarrow> ('k, 't) keyed list" where
  "with_key k xs = filter (\<lambda>x. key x = k) xs"

text \<open>
  \<open>stable_blocks bs k rd orig\<close>: the two sequences have the same length and, block of
  size \<open>bs\<close> by block, hold the same elements with key \<open>k\<close> in the same order.
\<close>

function stable_blocks ::
  "nat \<Rightarrow> 'k \<Rightarrow> ('k, 't) keyed list \<Rightarrow> ('k, 't) keyed list \<Rightarrow> bool" where
  "stable_blocks bs k rd orig =
     (if length rd \<noteq> length orig then False
      else if bs = 0 \<or> rd = [] then True
      else with_key k (take bs rd) = with_key k (take bs orig) \<and>
           stable_blocks bs k (drop bs rd) (drop bs orig))"
  by pat_completeness auto
termination
proof (relation "measure (\<lambda>(bs, k, rd, orig). length rd)")
  fix bs :: nat and k :: 'k and rd orig :: "('k, 't) keyed list"
  assume "\<not> (bs = 0 \<or> rd = [])"
  then show "((bs, k, drop bs rd, drop bs orig), (bs, k, rd, orig))
      \<in> measure (\<lambda>(bs, k, rd, orig). length rd)"
    by (cases rd) simp_all
qed simp

declare stable_blocks.simps [simp del]

text \<open>\<open>sorted_blocks bs rd\<close>: every full block of size \<open>bs\<close> of \<open>rd\<close> is ascending by key.\<close>

function sorted_blocks :: "nat \<Rightarrow> ('k::linorder, 't) keyed list \<Rightarrow> bool" where
  "sorted_blocks bs rd =
     (if bs = 0 \<or> length rd < bs then True
      else sorted (map key (take bs rd)) \<and> sorted_blocks bs (drop bs rd))"
  by pat_completeness auto
termination
  by (relation "measure (\<lambda>(bs, rd). length rd)") auto

declare sorted_blocks.simps [simp del]

section \<open>Properties of the sortedness check\<close>

lemma IsSorted_loop_adjacent:
  "nxt = bgn + 1 \<Longrightarrow> nxt \<le> length xs \<Longrightarrow>
   IsSorted_loop xs bgn nxt =
     Inr (\<forall>i. bgn \<le> i \<and> i + 1 < length xs \<longrightarrow> \<not> xs ! (i + 1) < xs ! i)"
proof (induction xs bgn nxt rule: IsSorted_loop.induct)
  case (1 xs bgn nxt)
  show ?case
  proof (cases "nxt = length xs")
    case True
    with "1.prems" show ?thesis
      by (auto simp add: IsSorted_loop.simps)
  next
    case False
    with "1.prems" have lt: "nxt < length xs" "bgn < length xs" by simp_all
    show ?thesis
    proof (cases "xs ! nxt < xs ! bgn")
      case True
      with lt "1.prems" have "\<not> (\<forall>i. bgn \<le> i \<and> i + 1 < length xs \<longrightarrow> \<not> xs ! (i + 1) < xs ! i)"
        by auto
      with True lt False show ?thesis
        by (subst IsSorted_loop.simps) simp
    next
      case nless: False
      have step: "IsSorted_loop xs bgn nxt = IsSorted_loop xs (bgn + 1) (nxt + 1)"
        using nless lt False by (subst IsSorted_loop.simps) simp
      have ih: "IsSorted_loop xs (bgn + 1) (nxt + 1) =
          Inr (\<forall>i. bgn + 1 \<le> i \<and> i + 1 < length xs \<longrightarrow> \<not> xs ! (i + 1) < xs ! i)"
        using "1.IH" [OF False _ nless] lt "1.prems" by simp
      have "(\<forall>i. bgn + 1 \<le> i \<and> i + 1 < length xs \<longrightarrow> \<not> xs ! (i + 1) < xs ! i) =
            (\<forall>i. bgn \<le> i \<and> i + 1 < length xs \<longrightarrow> \<not> xs ! (i + 1) < xs ! i)"
      proof -
        have "\<And>i. bgn \<le> i \<Longrightarrow> i = bgn \<or> bgn + 1 \<le> i" by arith
        with nless "1.prems" show ?thesis by auto
      qed
      with step ih show ?thesis by simp
    qed
  qed
qed

lemma IsSorted_adjacent:
  "xs \<noteq> [] \<Longrightarrow> IsSorted xs = Inr (\<forall>i. i + 1 < length xs \<longrightarrow> \<not> xs ! (i + 1) < xs ! i)"
  using IsSorted_loop_adjacent [of 1 0 xs]
  by (cases xs) (simp_all add: IsSorted_def)

text \<open>
  C9. \<^verbatim>\<open>IsSorted\<close> halts with a failed assertion exactly on the empty range. On every
  non-empty range it returns, and the value returned is true exactly when no adjacent
  pair \<open>(a, b)\<close> in iteration order has \<open>b < a\<close>; a single element gives true,
  \<open>[1, 2, 3]\<close> gives true and \<open>[3, 1, 2]\<close> gives false. The function receives the range
  and yields only the verdict, so the range is the same afterwards.
\<close>

theorem IsSorted_contract:
  fixes xs :: "'a::ord list" and x :: "'a::ord"
  shows "(IsSorted xs = Inl AssertionFailed \<longleftrightarrow> xs = []) \<and>
         (xs \<noteq> [] \<longrightarrow>
            IsSorted xs = Inr (\<forall>i. i + 1 < length xs \<longrightarrow> \<not> xs ! (i + 1) < xs ! i)) \<and>
         IsSorted [x] = Inr True \<and>
         IsSorted [1, 2, 3 :: nat] = Inr True \<and>
         IsSorted [3, 1, 2 :: nat] = Inr False"
proof -
  have empty: "IsSorted xs = Inl AssertionFailed \<longleftrightarrow> xs = []"
  proof (cases "xs = []")
    case True
    then show ?thesis by (simp add: IsSorted_def)
  next
    case False
    then show ?thesis by (simp add: IsSorted_adjacent)
  qed
  have single: "IsSorted [x] = Inr True"
    by (simp add: IsSorted_def IsSorted_loop.simps)
  have up: "IsSorted [1, 2, 3 :: nat] = Inr True"
    by (simp add: IsSorted_def IsSorted_loop.simps)
  have down: "IsSorted [3, 1, 2 :: nat] = Inr False"
    by (simp add: IsSorted_def IsSorted_loop.simps)
  from empty single up down show ?thesis
    by (simp add: IsSorted_adjacent)
qed

theorem IsSorted_contract_witness:
  "[2, 1 :: nat] \<noteq> [] \<and> IsSorted [2, 1 :: nat] = Inr False \<and>
   IsSorted ([] :: nat list) = Inl AssertionFailed"
proof -
  have "\<not> (\<forall>i. i + 1 < length [2, 1 :: nat] \<longrightarrow> \<not> [2, 1 :: nat] ! (i + 1) < [2, 1] ! i)"
    by (simp add: exI [of _ 0])
  with IsSorted_contract [of "[2, 1 :: nat]" 0] IsSorted_contract [of "[] :: nat list" 0]
  show ?thesis by simp
qed

section \<open>Merge sort on a length where a pass skips the tail\<close>

text \<open>
  C1. A pass handles the block pairs \<open>i = 0, 2, \<dots> < collectionSize / blockSize\<close>. When
  that quotient is even and the length is not a multiple of the block size, the
  elements behind the last full block are not written in the pass, and the write buffer
  keeps there what an earlier pass left. With eleven elements this happens in the pass
  with block size four: the result \<open>[0, 0, 0, 0, 0, 0, 0, 0, 5, 6, 1]\<close> of both overloads is
  not ascending.
\<close>

theorem MergeSort_eleven_not_sorted:
  "MergeSort 0 [0, 0, 0, 0, 0, 0, 0, 0, 5, 6, 1 :: nat] = Inr [0, 0, 0, 0, 0, 0, 0, 0, 5, 6, 1] \<and>
   MergeSort_range 0 [0, 0, 0, 0, 0, 0, 0, 0, 5, 6, 1 :: nat] = Inr [0, 0, 0, 0, 0, 0, 0, 0, 5, 6, 1] \<and>
   IsSorted [0, 0, 0, 0, 0, 0, 0, 0, 5, 6, 1 :: nat] = Inr False"
  by code_simp

section \<open>Sequences of length zero and one\<close>

text \<open>
  C4. Merge sort returns a sequence of length zero or one as it is, and quick sort
  returns a sequence of length one as it is. On the empty sequence quick sort's scan
  does not run, and the swap of line 250 then dereferences \<^verbatim>\<open>pivot\<close>, which is
  \<^verbatim>\<open>end - 1\<close>, one position before the sequence.
\<close>

theorem QuickSort_empty_out_of_bounds:
  fixes x :: "'a::linorder" and init :: "'a::linorder"
  shows "QuickSort ([] :: 'a list) = Some (Inl OutOfBounds) \<and>
         QuickSort_scan ([] :: 'a list) (0 - 1) 0 0 (0 - 1) = Inr ([], - 1) \<and>
         \<not> dereferenceable ([] :: 'a list) (0 - 1) \<and>
         QuickSort [x] = Some (Inr [x]) \<and>
         MergeSort init [] = Inr [] \<and> MergeSort init [x] = Inr [x] \<and>
         MergeSort_range init [] = Inr [] \<and> MergeSort_range init [x] = Inr [x]"
  by (simp add: QuickSort_def QuickSort_loop.simps QuickSort_partition_def QuickSort_scan.simps
      dereferenceable_def swap_elements_def QuickSort_push_def
      MergeSort_def MergeSort_range_def MergeSort_loop.simps MergeSort_copy_back.simps)

section \<open>Bucket sort: the index of the maximum\<close>

text \<open>
  C3. The counts array has \<open>max - min\<close> entries and an element equal to \<open>max\<close>, which
  both assertions of the counting pass admit, is counted at index \<open>max - min\<close>. On the
  specification's example \<open>[4, 2, 2, 5, 3]\<close> with \<open>min = 2\<close> and \<open>max = 5\<close> the array has three
  entries and the element \<open>5\<close> is counted at index three (the call is shown for \<^verbatim>\<open>int\<close>
  elements and bounds, 32 bits each).
\<close>

theorem BucketSort_count_max_out_of_bounds:
  "BucketSort_count [4, 2, 2, 5, 3] 2 5 (replicate (nat (5 - 2)) 0) 0 = Inl OutOfBounds \<and>
   length (replicate (nat (5 - 2)) (0 :: nat)) = 3 \<and>
   [4, 2, 2, 5, 3 :: int] ! 3 - 2 = 3 \<and>
   BucketSort 32 32 [4, 2, 2, 5, 3] 2 5 = Inl OutOfBounds"
  by code_simp

section \<open>Quick sort: the scan and the partition\<close>

lemma swap_elements_nat:
  "swap_elements xs (int a) (int b) = xs[a := xs ! b, b := xs ! a]"
  by (simp add: swap_elements_def)

lemma mset_swap_nat:
  "a < length xs \<Longrightarrow> b < length xs \<Longrightarrow> mset (xs[a := xs ! b, b := xs ! a]) = mset xs"
  by (simp add: mset_swap)

lemma dereferenceable_nat [simp]: "dereferenceable xs (int i) = (i < length xs)"
  by (simp add: dereferenceable_def)

lemma QuickSort_scan_step:
  assumes "c \<le> p" "p < length xs"
  shows "QuickSort_scan xs (int p) (int p + 1) (int c) (int b) =
     (if xs ! c \<le> xs ! p \<and> b \<noteq> p \<and> c \<noteq> p then
        (if b < length xs then
           QuickSort_scan (xs[c := xs ! b, b := xs ! c]) (int p) (int p + 1)
             (int (c + 1)) (int (b + 1))
         else Inl OutOfBounds)
      else if xs ! p < xs ! c \<and> b = p then
        QuickSort_scan xs (int p) (int p + 1) (int (c + 1)) (int c)
      else QuickSort_scan xs (int p) (int p + 1) (int (c + 1)) (int b))"
proof -
  have ne: "int c \<noteq> int p + 1" using assms by simp
  have d: "c < length xs" "p < length xs"
    using assms by simp_all
  show ?thesis
    by (subst QuickSort_scan.simps)
       (simp only: ne d nat_int of_nat_eq_iff swap_elements_nat dereferenceable_nat
          if_True if_False simp_thms of_nat_add of_nat_1)
qed

lemma QuickSort_scan_correct:
  fixes xs :: "'a::linorder list" and f c b p :: nat
  assumes "f \<le> c" "c \<le> p + 1" "p < length xs" "f \<le> p"
    and "(b = p \<and> (\<forall>i. f \<le> i \<and> i < c \<and> i < p \<longrightarrow> xs ! i \<le> xs ! p)) \<or>
         (f \<le> b \<and> b < c \<and> b < p \<and> (\<forall>i. f \<le> i \<and> i < b \<longrightarrow> xs ! i \<le> xs ! p) \<and>
            (\<forall>i. b \<le> i \<and> i < c \<and> i < p \<longrightarrow> xs ! p < xs ! i))"
  shows "\<exists>xs' b'. QuickSort_scan xs (int p) (int p + 1) (int c) (int b) = Inr (xs', int b') \<and>
           length xs' = length xs \<and> mset xs' = mset xs \<and> xs' ! p = xs ! p \<and>
           (\<forall>i. i < f \<or> p \<le> i \<longrightarrow> xs' ! i = xs ! i) \<and> f \<le> b' \<and> b' \<le> p \<and>
           (\<forall>i. f \<le> i \<and> i < b' \<longrightarrow> xs' ! i \<le> xs' ! p) \<and>
           (\<forall>i. b' \<le> i \<and> i < p \<longrightarrow> xs' ! p < xs' ! i)"
  using assms
proof (induction "p + 1 - c" arbitrary: xs c b)
  case 0
  then have c: "c = p + 1" by simp
  have "QuickSort_scan xs (int p) (int p + 1) (int c) (int b) = Inr (xs, int b)"
    using c by (subst QuickSort_scan.simps) simp
  moreover have "f \<le> b \<and> b \<le> p \<and> (\<forall>i. f \<le> i \<and> i < b \<longrightarrow> xs ! i \<le> xs ! p) \<and>
           (\<forall>i. b \<le> i \<and> i < p \<longrightarrow> xs ! p < xs ! i)"
    using "0.prems" c by auto
  ultimately show ?case by auto
next
  case (Suc n)
  then have c: "c \<le> p" "c < length xs" "n = p + 1 - (c + 1)" by simp_all
  have ne: "int c \<noteq> int p + 1" using c by simp
  let ?A = "xs ! c \<le> xs ! p \<and> b \<noteq> p \<and> c \<noteq> p"
  let ?B = "xs ! c > xs ! p \<and> b = p"
  consider (A) ?A | (B) "\<not> ?A" ?B | (C) "\<not> ?A" "\<not> ?B" by blast
  then show ?case
  proof cases
    case A
    with Suc.prems c have inv: "f \<le> b" "b < c" "b < p" "c < p"
      "\<forall>i. f \<le> i \<and> i < b \<longrightarrow> xs ! i \<le> xs ! p"
      "\<forall>i. b \<le> i \<and> i < c \<and> i < p \<longrightarrow> xs ! p < xs ! i"
      by auto
    let ?ys = "xs[c := xs ! b, b := xs ! c]"
    have step: "QuickSort_scan xs (int p) (int p + 1) (int c) (int b) =
        QuickSort_scan ?ys (int p) (int p + 1) (int (c + 1)) (int (b + 1))"
    proof -
      from inv Suc.prems(3) have "b < length xs" by simp
      with A show ?thesis
        unfolding QuickSort_scan_step [OF c(1) Suc.prems(3)] by (simp only: if_True simp_thms)
    qed
    have ysp: "?ys ! p = xs ! p" using inv by simp
    have len: "length ?ys = length xs" by simp
    have "\<forall>i. f \<le> i \<and> i < b + 1 \<longrightarrow> ?ys ! i \<le> ?ys ! p"
    proof (intro allI impI)
      fix i assume "f \<le> i \<and> i < b + 1"
      then have "i < b \<or> i = b" by arith
      then show "?ys ! i \<le> ?ys ! p"
      proof
        assume "i < b"
        with inv \<open>f \<le> i \<and> i < b + 1\<close> c show ?thesis by (simp add: ysp)
      next
        assume "i = b"
        with inv A c Suc.prems(3) show ?thesis by (simp add: ysp)
      qed
    qed
    moreover have "\<forall>i. b + 1 \<le> i \<and> i < c + 1 \<and> i < p \<longrightarrow> ?ys ! p < ?ys ! i"
    proof (intro allI impI)
      fix i assume h: "b + 1 \<le> i \<and> i < c + 1 \<and> i < p"
      then have "i < c \<or> i = c" by arith
      then show "?ys ! p < ?ys ! i"
      proof
        assume "i < c"
        with inv h c show ?thesis by (simp add: ysp)
      next
        assume "i = c"
        with inv c Suc.prems(3) show ?thesis by (simp add: ysp)
      qed
    qed
    ultimately have inv': "(b + 1 = p \<and> (\<forall>i. f \<le> i \<and> i < c + 1 \<and> i < p \<longrightarrow> ?ys ! i \<le> ?ys ! p)) \<or>
         (f \<le> b + 1 \<and> b + 1 < c + 1 \<and> b + 1 < p \<and> (\<forall>i. f \<le> i \<and> i < b + 1 \<longrightarrow> ?ys ! i \<le> ?ys ! p) \<and>
            (\<forall>i. b + 1 \<le> i \<and> i < c + 1 \<and> i < p \<longrightarrow> ?ys ! p < ?ys ! i))"
      using inv by simp
    have "\<exists>xs' b'. QuickSort_scan ?ys (int p) (int p + 1) (int (c + 1)) (int (b + 1)) = Inr (xs', int b') \<and>
           length xs' = length ?ys \<and> mset xs' = mset ?ys \<and> xs' ! p = ?ys ! p \<and>
           (\<forall>i. i < f \<or> p \<le> i \<longrightarrow> xs' ! i = ?ys ! i) \<and> f \<le> b' \<and> b' \<le> p \<and>
           (\<forall>i. f \<le> i \<and> i < b' \<longrightarrow> xs' ! i \<le> xs' ! p) \<and>
           (\<forall>i. b' \<le> i \<and> i < p \<longrightarrow> xs' ! p < xs' ! i)"
    proof (rule Suc.hyps(1) [OF c(3) _ _ _ _ inv'])
      show "f \<le> c + 1" using Suc.prems(1) by simp
      show "c + 1 \<le> p + 1" using c by simp
      show "p < length ?ys" using Suc.prems(3) by simp
      show "f \<le> p" by (rule Suc.prems(4))
    qed
    then obtain xs' b' where r: "QuickSort_scan ?ys (int p) (int p + 1) (int (c + 1)) (int (b + 1)) = Inr (xs', int b')"
           "length xs' = length ?ys" "mset xs' = mset ?ys" "xs' ! p = ?ys ! p"
           "\<forall>i. i < f \<or> p \<le> i \<longrightarrow> xs' ! i = ?ys ! i" "f \<le> b'" "b' \<le> p"
           "\<forall>i. f \<le> i \<and> i < b' \<longrightarrow> xs' ! i \<le> xs' ! p"
           "\<forall>i. b' \<le> i \<and> i < p \<longrightarrow> xs' ! p < xs' ! i"
      by blast
    have m: "mset ?ys = mset xs"
      using c inv Suc.prems(3) mset_swap_nat [of c xs b] by simp
    have out: "\<forall>i. i < f \<or> p \<le> i \<longrightarrow> ?ys ! i = xs ! i"
      using inv by auto
    have r2: "length xs' = length xs" using r(2) by simp
    have r3: "mset xs' = mset xs" using r(3) m by (rule trans)
    have r4: "xs' ! p = xs ! p" using r(4) ysp by (rule trans)
    have r5: "\<forall>i. i < f \<or> p \<le> i \<longrightarrow> xs' ! i = xs ! i"
    proof (intro allI impI)
      fix i assume h: "i < f \<or> p \<le> i"
      from r(5) h have "xs' ! i = ?ys ! i" by blast
      also from out h have "?ys ! i = xs ! i" by blast
      finally show "xs' ! i = xs ! i" .
    qed
    from r(1) r2 r3 r4 r5 r(6-9) show ?thesis
      unfolding step by blast
  next
    case B
    with Suc.prems have inv: "b = p" "\<forall>i. f \<le> i \<and> i < c \<and> i < p \<longrightarrow> xs ! i \<le> xs ! p"
      by auto
    from B have cp: "c \<noteq> p" by auto
    with c have cltp: "c < p" by simp
    have step: "QuickSort_scan xs (int p) (int p + 1) (int c) (int b) =
        QuickSort_scan xs (int p) (int p + 1) (int (c + 1)) (int c)"
      using B unfolding QuickSort_scan_step [OF c(1) Suc.prems(3)]
      by (simp only: if_True if_False simp_thms)
    have inv': "(c = p \<and> (\<forall>i. f \<le> i \<and> i < c + 1 \<and> i < p \<longrightarrow> xs ! i \<le> xs ! p)) \<or>
         (f \<le> c \<and> c < c + 1 \<and> c < p \<and> (\<forall>i. f \<le> i \<and> i < c \<longrightarrow> xs ! i \<le> xs ! p) \<and>
            (\<forall>i. c \<le> i \<and> i < c + 1 \<and> i < p \<longrightarrow> xs ! p < xs ! i))"
    proof -
      have "\<forall>i. c \<le> i \<and> i < c + 1 \<and> i < p \<longrightarrow> xs ! p < xs ! i"
      proof (intro allI impI)
        fix i assume "c \<le> i \<and> i < c + 1 \<and> i < p"
        then have "i = c" by arith
        with B show "xs ! p < xs ! i" by simp
      qed
      with inv cltp Suc.prems(1) show ?thesis by auto
    qed
    show ?thesis
      unfolding step
    proof (rule Suc.hyps(1) [OF c(3) _ _ _ _ inv'])
      show "f \<le> c + 1" using Suc.prems(1) by simp
      show "c + 1 \<le> p + 1" using c by simp
      show "p < length xs" by (rule Suc.prems(3))
      show "f \<le> p" by (rule Suc.prems(4))
    qed
  next
    case C
    have step: "QuickSort_scan xs (int p) (int p + 1) (int c) (int b) =
        QuickSort_scan xs (int p) (int p + 1) (int (c + 1)) (int b)"
      using C unfolding QuickSort_scan_step [OF c(1) Suc.prems(3)]
      by (simp only: if_True if_False simp_thms)
    have inv': "(b = p \<and> (\<forall>i. f \<le> i \<and> i < c + 1 \<and> i < p \<longrightarrow> xs ! i \<le> xs ! p)) \<or>
         (f \<le> b \<and> b < c + 1 \<and> b < p \<and> (\<forall>i. f \<le> i \<and> i < b \<longrightarrow> xs ! i \<le> xs ! p) \<and>
            (\<forall>i. b \<le> i \<and> i < c + 1 \<and> i < p \<longrightarrow> xs ! p < xs ! i))"
    proof (cases "b = p")
      case True
      with C have le: "xs ! c \<le> xs ! p" by auto
      from True Suc.prems have old: "\<forall>i. f \<le> i \<and> i < c \<and> i < p \<longrightarrow> xs ! i \<le> xs ! p" by auto
      have "\<forall>i. f \<le> i \<and> i < c + 1 \<and> i < p \<longrightarrow> xs ! i \<le> xs ! p"
      proof (intro allI impI)
        fix i assume h: "f \<le> i \<and> i < c + 1 \<and> i < p"
        then have "i < c \<or> i = c" by arith
        with old le h show "xs ! i \<le> xs ! p" by auto
      qed
      with True show ?thesis by simp
    next
      case False
      with Suc.prems have old: "f \<le> b" "b < c" "b < p" "\<forall>i. f \<le> i \<and> i < b \<longrightarrow> xs ! i \<le> xs ! p"
            "\<forall>i. b \<le> i \<and> i < c \<and> i < p \<longrightarrow> xs ! p < xs ! i" by auto
      from C False have cc: "c = p \<or> xs ! p < xs ! c" by auto
      have "\<forall>i. b \<le> i \<and> i < c + 1 \<and> i < p \<longrightarrow> xs ! p < xs ! i"
      proof (intro allI impI)
        fix i assume h: "b \<le> i \<and> i < c + 1 \<and> i < p"
        then have "i < c \<or> i = c" by arith
        with old cc h show "xs ! p < xs ! i" by auto
      qed
      with old show ?thesis by simp
    qed
    show ?thesis
      unfolding step
    proof (rule Suc.hyps(1) [OF c(3) _ _ _ _ inv'])
      show "f \<le> c + 1" using Suc.prems(1) by simp
      show "c + 1 \<le> p + 1" using c by simp
      show "p < length xs" by (rule Suc.prems(3))
      show "f \<le> p" by (rule Suc.prems(4))
    qed
  qed
qed

lemma QuickSort_partition_correct:
  fixes xs :: "'a::linorder list" and f s :: nat
  assumes "f < s" "s \<le> length xs"
  shows "\<exists>xs' q. QuickSort_partition xs (int f) (int s) = Inr (xs', int q) \<and>
           length xs' = length xs \<and> mset xs' = mset xs \<and>
           (\<forall>i. i < f \<or> s \<le> i \<longrightarrow> xs' ! i = xs ! i) \<and> f \<le> q \<and> q < s \<and>
           xs' ! q = xs ! (s - 1) \<and>
           (\<forall>i. f \<le> i \<and> i < q \<longrightarrow> xs' ! i \<le> xs' ! q) \<and>
           (\<forall>i. q < i \<and> i < s \<longrightarrow> xs' ! q < xs' ! i)"
proof -
  define p where "p = s - 1"
  have p: "int s - 1 = int p" "int s = int p + 1" "f \<le> p" "p < length xs" "s = p + 1"
    using assms by (simp_all add: p_def)
  have "\<exists>xs' b'. QuickSort_scan xs (int p) (int p + 1) (int f) (int p) = Inr (xs', int b') \<and>
           length xs' = length xs \<and> mset xs' = mset xs \<and> xs' ! p = xs ! p \<and>
           (\<forall>i. i < f \<or> p \<le> i \<longrightarrow> xs' ! i = xs ! i) \<and> f \<le> b' \<and> b' \<le> p \<and>
           (\<forall>i. f \<le> i \<and> i < b' \<longrightarrow> xs' ! i \<le> xs' ! p) \<and>
           (\<forall>i. b' \<le> i \<and> i < p \<longrightarrow> xs' ! p < xs' ! i)"
  proof (rule QuickSort_scan_correct)
    show "f \<le> f" by simp
    show "f \<le> p + 1" using p(3) by simp
    show "p < length xs" by (rule p(4))
    show "f \<le> p" by (rule p(3))
    show "(p = p \<and> (\<forall>i. f \<le> i \<and> i < f \<and> i < p \<longrightarrow> xs ! i \<le> xs ! p)) \<or>
         (f \<le> p \<and> p < f \<and> p < p \<and> (\<forall>i. f \<le> i \<and> i < p \<longrightarrow> xs ! i \<le> xs ! p) \<and>
            (\<forall>i. p \<le> i \<and> i < f \<and> i < p \<longrightarrow> xs ! p < xs ! i))"
      by auto
  qed
  then obtain xs1 b where r: "QuickSort_scan xs (int p) (int p + 1) (int f) (int p) = Inr (xs1, int b)"
      "length xs1 = length xs" "mset xs1 = mset xs" "xs1 ! p = xs ! p"
      "\<forall>i. i < f \<or> p \<le> i \<longrightarrow> xs1 ! i = xs ! i" "f \<le> b" "b \<le> p"
      "\<forall>i. f \<le> i \<and> i < b \<longrightarrow> xs1 ! i \<le> xs1 ! p"
      "\<forall>i. b \<le> i \<and> i < p \<longrightarrow> xs1 ! p < xs1 ! i"
    by blast
  let ?zs = "xs1[b := xs1 ! p, p := xs1 ! b]"
  have bl: "b < length xs1" "p < length xs1" using r(2,7) p(4) by simp_all
  have part: "QuickSort_partition xs (int f) (int s) = Inr (?zs, int b)"
    unfolding QuickSort_partition_def Let_def p(2) add_diff_cancel_right' r(1)
    by (simp only: sum.case prod.case dereferenceable_nat bl swap_elements_nat if_True simp_thms)
  have zb: "?zs ! b = xs1 ! p" using bl by (simp add: nth_list_update)
  have zp: "?zs ! p = xs1 ! b" using bl by (simp add: nth_list_update)
  have zo: "\<And>i. i \<noteq> b \<Longrightarrow> i \<noteq> p \<Longrightarrow> ?zs ! i = xs1 ! i" by simp
  have c2: "length ?zs = length xs" using r(2) by simp
  have c3: "mset ?zs = mset xs"
    using mset_swap_nat [OF bl] r(3) by simp
  have c4: "\<forall>i. i < f \<or> s \<le> i \<longrightarrow> ?zs ! i = xs ! i"
  proof (intro allI impI)
    fix i assume h: "i < f \<or> s \<le> i"
    with r(6,7) p(5) have "i \<noteq> b" "i \<noteq> p" "i < f \<or> p \<le> i" by auto
    with zo [of i] r(5) show "?zs ! i = xs ! i" by auto
  qed
  have c5: "f \<le> b" "b < s" using r(6,7) p(5) by simp_all
  have c6: "?zs ! b = xs ! (s - 1)" using zb r(4) p(5) by simp
  have c7: "\<forall>i. f \<le> i \<and> i < b \<longrightarrow> ?zs ! i \<le> ?zs ! b"
  proof (intro allI impI)
    fix i assume h: "f \<le> i \<and> i < b"
    with r(7) have "i \<noteq> b" "i \<noteq> p" by auto
    with zo have "?zs ! i = xs1 ! i" by simp
    with r(8) h zb show "?zs ! i \<le> ?zs ! b" by auto
  qed
  have c8: "\<forall>i. b < i \<and> i < s \<longrightarrow> ?zs ! b < ?zs ! i"
  proof (intro allI impI)
    fix i assume h: "b < i \<and> i < s"
    show "?zs ! b < ?zs ! i"
    proof (cases "i = p")
      case True
      with h r(9) have "xs1 ! p < xs1 ! b" by auto
      with True zb zp show ?thesis by simp
    next
      case False
      with h p(5) have "i < p" "i \<noteq> b" by auto
      with zo [of i] r(9) zb h show ?thesis by auto
    qed
  qed
  from part c2 c3 c4 c5 c6 c7 c8 show ?thesis by blast
qed

lemma slice_decompose:
  assumes "f \<le> q" "q < s" "s \<le> length xs"
  shows "xs = take f xs @ slice xs f q @ [xs ! q] @ slice xs (Suc q) s @ drop s xs"
proof -
  have 1: "drop f xs = slice xs f q @ drop q xs"
    using assms append_take_drop_id [of "q - f" "drop f xs"] by (simp add: slice_def)
  have 2: "drop q xs = xs ! q # drop (Suc q) xs"
    using assms by (simp add: Cons_nth_drop_Suc)
  have 3: "drop (Suc q) xs = slice xs (Suc q) s @ drop s xs"
    using assms append_take_drop_id [of "s - Suc q" "drop (Suc q) xs"] by (simp add: slice_def)
  have "xs = take f xs @ drop f xs" by simp
  also have "\<dots> = take f xs @ slice xs f q @ [xs ! q] @ slice xs (Suc q) s @ drop s xs"
    by (simp only: 1 2 3 append_Cons append_Nil)
  finally show ?thesis .
qed

lemma slice_middle: "f \<le> s \<Longrightarrow> xs = take f xs @ slice xs f s @ drop s xs"
  using append_take_drop_id [of "s - f" "drop f xs"] append_take_drop_id [of f xs]
  by (simp add: slice_def)

lemma length_slice: "s \<le> length xs \<Longrightarrow> length (slice xs f s) = s - f"
  by (simp add: slice_def)

lemma set_slice:
  "s \<le> length xs \<Longrightarrow> x \<in> set (slice xs f s) \<Longrightarrow> \<exists>i. f \<le> i \<and> i < s \<and> x = xs ! i"
proof -
  assume s: "s \<le> length xs" and "x \<in> set (slice xs f s)"
  then obtain j where j: "j < length (slice xs f s)" "x = slice xs f s ! j"
    by (auto simp: in_set_conv_nth)
  with s have "j < s - f" by (simp add: length_slice)
  with j s have "x = xs ! (f + j)" by (simp add: slice_def)
  with \<open>j < s - f\<close> show ?thesis by (intro exI [of _ "f + j"]) simp
qed

lemma sort_range_append:
  "length P = f \<Longrightarrow> length M = s - f \<Longrightarrow> f \<le> s \<Longrightarrow>
   sort_range (P @ M @ S) f s = P @ sort M @ S"
  by (simp add: sort_range_def slice_def)

lemma sort_short: "length ys \<le> 1 \<Longrightarrow> sort ys = ys"
  by (cases ys) auto

lemma sort_range_small: "f \<le> s \<Longrightarrow> s - f \<le> 1 \<Longrightarrow> sort_range xs f s = xs"
proof -
  assume a: "f \<le> s" "s - f \<le> 1"
  have "length (slice xs f s) \<le> 1" using a by (simp add: slice_def)
  then have "sort (slice xs f s) = slice xs f s" by (rule sort_short)
  with slice_middle [OF a(1), of xs] show ?thesis by (simp add: sort_range_def)
qed

lemma sort_range_partitioned:
  fixes xs :: "'a::linorder list"
  assumes fq: "f \<le> q" "q < s" "s \<le> length xs1"
    and len: "length xs1 = length xs"
    and ms: "mset xs1 = mset xs"
    and out: "\<forall>i. i < f \<or> s \<le> i \<longrightarrow> xs1 ! i = xs ! i"
    and le: "\<forall>i. f \<le> i \<and> i < q \<longrightarrow> xs1 ! i \<le> xs1 ! q"
    and gt: "\<forall>i. q < i \<and> i < s \<longrightarrow> xs1 ! q < xs1 ! i"
  shows "sort_range (sort_range xs1 f q) (Suc q) s = sort_range xs f s"
proof -
  define P where "P = take f xs1"
  define L where "L = slice xs1 f q"
  define v where "v = xs1 ! q"
  define R where "R = slice xs1 (Suc q) s"
  define S where "S = drop s xs1"
  have d1: "xs1 = P @ L @ [v] @ R @ S"
    unfolding P_def L_def v_def R_def S_def by (rule slice_decompose [OF fq])
  have lP: "length P = f" using fq by (simp add: P_def)
  have lL: "length L = q - f" using fq by (simp add: L_def length_slice)
  have lR: "length R = s - Suc q" using fq by (simp add: R_def length_slice)
  have tk: "take f xs = P"
    unfolding P_def
  proof (rule nth_take_lemma)
    show "f \<le> length xs" using fq len by simp
    show "f \<le> length xs1" using fq by simp
    show "\<And>i. i < f \<longrightarrow> xs ! i = xs1 ! i" using out by simp
  qed
  have dr: "drop s xs = S"
    unfolding S_def
  proof (rule nth_equalityI)
    show "length (drop s xs) = length (drop s xs1)" using len by simp
    fix i assume "i < length (drop s xs)"
    then have "s + i < length xs" by simp
    with out len show "drop s xs ! i = drop s xs1 ! i" by simp
  qed
  have "f \<le> s" using fq by simp
  from slice_middle [OF this, of xs] have d2: "xs = P @ slice xs f s @ S"
    by (simp only: tk dr)
  have "mset (P @ L @ [v] @ R @ S) = mset (P @ slice xs f s @ S)"
    using ms d1 d2 by metis
  then have mm: "mset (sort L @ [v] @ sort R) = mset (slice xs f s)"
    by simp
  have "\<forall>x\<in>set L. x \<le> v"
  proof
    fix x assume "x \<in> set L"
    then obtain i where "f \<le> i \<and> i < q \<and> x = xs1 ! i"
      unfolding L_def using set_slice [of q xs1 x f] fq by auto
    with le show "x \<le> v" by (simp add: v_def)
  qed
  moreover have "\<forall>x\<in>set R. v < x"
  proof
    fix x assume "x \<in> set R"
    then obtain i where "Suc q \<le> i \<and> i < s \<and> x = xs1 ! i"
      unfolding R_def using set_slice [of s xs1 x "Suc q"] fq by auto
    with gt show "v < x" by (simp add: v_def)
  qed
  ultimately have "sorted (sort L @ [v] @ sort R)"
    by (fastforce simp: sorted_append)
  with mm have srt: "sort (slice xs f s) = sort L @ [v] @ sort R"
    by (rule properties_for_sort)
  have a1: "sort_range xs1 f q = P @ sort L @ [v] @ R @ S"
    using sort_range_append [OF lP lL fq(1), of "[v] @ R @ S"] d1 by simp
  have "sort_range ((P @ sort L @ [v]) @ R @ S) (Suc q) s = (P @ sort L @ [v]) @ sort R @ S"
  proof (rule sort_range_append)
    show "length (P @ sort L @ [v]) = Suc q" using lP lL fq by simp
    show "length R = s - Suc q" by (rule lR)
    show "Suc q \<le> s" using fq by simp
  qed
  then have a2: "sort_range (P @ sort L @ [v] @ R @ S) (Suc q) s = P @ sort L @ [v] @ sort R @ S"
    by simp
  have a3: "sort_range xs f s = P @ sort (slice xs f s) @ S"
    by (simp add: sort_range_def tk dr)
  show ?thesis
    by (simp only: a1 a2 a3 srt append_assoc)
qed

lemma QuickSort_push_nat:
  assumes "f \<le> q" "q < s"
  shows "QuickSort_push rest (int f) (int s) (int q) =
     (if 1 < q - f then [(int f, int q)] else []) @
     (if 1 < s - (q + 1) then [(int (q + 1), int s)] else []) @ rest"
proof -
  have 1: "(int s - (int q + 1) > 1) = (1 < s - (q + 1))" using assms by linarith
  have 2: "(int q - int f > 1) = (1 < q - f)" using assms by linarith
  show ?thesis
    unfolding QuickSort_push_def Let_def 1 2 by simp
qed

lemma QuickSort_loop_Nil: "QuickSort_loop [] xs = Some (Inr xs)"
  by (subst QuickSort_loop.simps) simp

lemma QuickSort_loop_range:
  fixes xs :: "'a::linorder list"
  shows "f < s \<Longrightarrow> s \<le> length xs \<Longrightarrow>
    QuickSort_loop ((int f, int s) # rest) xs = QuickSort_loop rest (sort_range xs f s)"
proof (induction "s - f" arbitrary: f s xs rest rule: less_induct)
  case less
  from QuickSort_partition_correct [OF less.prems]
  obtain xs1 q where r: "QuickSort_partition xs (int f) (int s) = Inr (xs1, int q)"
      "length xs1 = length xs" "mset xs1 = mset xs"
      "\<forall>i. i < f \<or> s \<le> i \<longrightarrow> xs1 ! i = xs ! i" "f \<le> q" "q < s"
      "xs1 ! q = xs ! (s - 1)"
      "\<forall>i. f \<le> i \<and> i < q \<longrightarrow> xs1 ! i \<le> xs1 ! q"
      "\<forall>i. q < i \<and> i < s \<longrightarrow> xs1 ! q < xs1 ! i"
    by blast
  define left where "left = (if 1 < q - f then [(int f, int q)] else [])"
  define right where "right = (if 1 < s - (q + 1) then [(int (q + 1), int s)] else [])"
  have unfold: "QuickSort_loop ((int f, int s) # rest) xs =
      QuickSort_loop (left @ right @ rest) xs1"
    unfolding left_def right_def QuickSort_push_nat [OF r(5,6), symmetric]
    by (subst QuickSort_loop.simps)
       (simp only: list.case fst_conv snd_conv r(1) sum.case prod.case)
  let ?xs2 = "sort_range xs1 f q"
  have len2: "length ?xs2 = length xs1"
    using r(5,6) less.prems r(2) by (simp add: sort_range_def slice_def)
  have L: "QuickSort_loop (left @ right @ rest) xs1 = QuickSort_loop (right @ rest) ?xs2"
  proof (cases "1 < q - f")
    case True
    have "QuickSort_loop ((int f, int q) # right @ rest) xs1 =
        QuickSort_loop (right @ rest) (sort_range xs1 f q)"
    proof (rule less.hyps)
      show "q - f < s - f" using r(5,6) by simp
      show "f < q" using True by simp
      show "q \<le> length xs1" using r(2,6) less.prems by simp
    qed
    with True show ?thesis by (simp add: left_def)
  next
    case False
    then have "sort_range xs1 f q = xs1"
      using r(5) by (intro sort_range_small) simp_all
    with False show ?thesis by (simp add: left_def)
  qed
  have R: "QuickSort_loop (right @ rest) ?xs2 =
      QuickSort_loop rest (sort_range ?xs2 (Suc q) s)"
  proof (cases "1 < s - (q + 1)")
    case True
    have "QuickSort_loop ((int (Suc q), int s) # rest) ?xs2 =
        QuickSort_loop rest (sort_range ?xs2 (Suc q) s)"
    proof (rule less.hyps)
      show "s - Suc q < s - f" using r(5,6) by simp
      show "Suc q < s" using True by simp
      show "s \<le> length ?xs2" using len2 r(2) less.prems by simp
    qed
    with True show ?thesis by (simp add: right_def)
  next
    case False
    then have "sort_range ?xs2 (Suc q) s = ?xs2"
      using r(6) by (intro sort_range_small) simp_all
    with False show ?thesis by (simp add: right_def)
  qed
  have "sort_range ?xs2 (Suc q) s = sort_range xs f s"
  proof (rule sort_range_partitioned)
    show "f \<le> q" "q < s" by (rule r(5), rule r(6))
    show "s \<le> length xs1" using r(2) less.prems by simp
    show "length xs1 = length xs" by (rule r(2))
    show "mset xs1 = mset xs" by (rule r(3))
    show "\<forall>i. i < f \<or> s \<le> i \<longrightarrow> xs1 ! i = xs ! i" by (rule r(4))
    show "\<forall>i. f \<le> i \<and> i < q \<longrightarrow> xs1 ! i \<le> xs1 ! q" by (rule r(8))
    show "\<forall>i. q < i \<and> i < s \<longrightarrow> xs1 ! q < xs1 ! i" by (rule r(9))
  qed
  with unfold L R show ?case by simp
qed

lemma sort_range_all: "sort_range xs 0 (length xs) = sort xs"
  by (simp add: sort_range_def slice_def)

lemma QuickSort_sorts:
  fixes xs :: "'a::linorder list"
  assumes "xs \<noteq> []"
  shows "QuickSort xs = Some (Inr (sort xs))"
proof -
  have "QuickSort_loop ((int 0, int (length xs)) # []) xs =
      QuickSort_loop [] (sort_range xs 0 (length xs))"
    using assms by (intro QuickSort_loop_range) simp_all
  then show ?thesis
    by (simp add: QuickSort_def sort_range_all QuickSort_loop_Nil)
qed

lemma IsSorted_sorted:
  fixes ys :: "'a::linorder list"
  shows "ys \<noteq> [] \<Longrightarrow> IsSorted ys = Inr (sorted ys)"
proof -
  assume "ys \<noteq> []"
  have "(\<forall>i. i + 1 < length ys \<longrightarrow> \<not> ys ! (i + 1) < ys ! i) = sorted ys"
    by (simp add: sorted_iff_nth_Suc not_less)
  with IsSorted_adjacent [OF \<open>ys \<noteq> []\<close>] show ?thesis by simp
qed

lemma QuickSort_partition_int:
  fixes xs :: "'a::linorder list"
  assumes "0 \<le> first" "first < second" "second \<le> int (length xs)"
  shows "\<exists>xs' pivot. QuickSort_partition xs first second = Inr (xs', pivot) \<and>
           first \<le> pivot \<and> pivot < second \<and>
           length xs' = length xs \<and> mset xs' = mset xs \<and>
           xs' ! nat pivot = xs ! nat (second - 1) \<and>
           (\<forall>i. first \<le> i \<and> i < pivot \<longrightarrow> xs' ! nat i \<le> xs' ! nat pivot) \<and>
           (\<forall>i. pivot < i \<and> i < second \<longrightarrow> xs' ! nat pivot < xs' ! nat i) \<and>
           (\<forall>i. 0 \<le> i \<and> i < int (length xs) \<and> (i < first \<or> second \<le> i) \<longrightarrow>
              xs' ! nat i = xs ! nat i)"
proof -
  define f where "f = nat first"
  define s where "s = nat second"
  have fs: "first = int f" "second = int s" "f < s" "s \<le> length xs"
    using assms by (simp_all add: f_def s_def)
  from QuickSort_partition_correct [OF fs(3,4)]
  obtain xs1 q where r: "QuickSort_partition xs (int f) (int s) = Inr (xs1, int q)"
      "length xs1 = length xs" "mset xs1 = mset xs"
      "f \<le> q" "q < s" "xs1 ! q = xs ! (s - 1)"
      "\<forall>i. f \<le> i \<and> i < q \<longrightarrow> xs1 ! i \<le> xs1 ! q"
      "\<forall>i. q < i \<and> i < s \<longrightarrow> xs1 ! q < xs1 ! i"
      "\<forall>i. i < f \<or> s \<le> i \<longrightarrow> xs1 ! i = xs ! i"
    by blast
  have a: "\<forall>i. first \<le> i \<and> i < int q \<longrightarrow> xs1 ! nat i \<le> xs1 ! nat (int q)"
  proof (intro allI impI)
    fix i :: int assume "first \<le> i \<and> i < int q"
    then have "f \<le> nat i \<and> nat i < q" using fs(1) assms(1) by auto
    with r(7) show "xs1 ! nat i \<le> xs1 ! nat (int q)" by simp
  qed
  have b: "\<forall>i. int q < i \<and> i < second \<longrightarrow> xs1 ! nat (int q) < xs1 ! nat i"
  proof (intro allI impI)
    fix i :: int assume "int q < i \<and> i < second"
    then have "q < nat i \<and> nat i < s" using fs(2) by auto
    with r(8) show "xs1 ! nat (int q) < xs1 ! nat i" by simp
  qed
  have c: "xs1 ! nat (int q) = xs ! nat (second - 1)"
    using r(6) fs(2,3) by (simp add: nat_diff_distrib')
  have d: "first \<le> int q" "int q < second" using r(4,5) fs(1,2) by simp_all
  from r(1) have e: "QuickSort_partition xs first second = Inr (xs1, int q)"
    by (simp only: fs(1,2))
  have o: "\<forall>i. 0 \<le> i \<and> i < int (length xs) \<and> (i < first \<or> second \<le> i) \<longrightarrow>
      xs1 ! nat i = xs ! nat i"
  proof (intro allI impI)
    fix i :: int assume "0 \<le> i \<and> i < int (length xs) \<and> (i < first \<or> second \<le> i)"
    then have "nat i < f \<or> s \<le> nat i" using fs(1,2) by auto
    with r(9) show "xs1 ! nat i = xs ! nat i" by blast
  qed
  from e d r(2,3) c a b o show ?thesis by blast
qed

lemma QuickSort_push_ranges:
  assumes "first \<le> pivot" "pivot < second"
  shows "\<exists>pushed. QuickSort_push rest first second pivot = pushed @ rest \<and>
           set pushed \<subseteq> {(first, pivot), (pivot + 1, second)} \<and>
           (\<forall>r\<in>set pushed. 1 < snd r - fst r \<and> snd r - fst r < second - first)"
proof -
  define pushed where "pushed =
     (if pivot - first > 1 then [(first, pivot)] else []) @
     (if second - (pivot + 1) > 1 then [(pivot + 1, second)] else [])"
  have "QuickSort_push rest first second pivot = pushed @ rest"
    by (simp add: QuickSort_push_def pushed_def)
  moreover have "set pushed \<subseteq> {(first, pivot), (pivot + 1, second)}"
    by (auto simp: pushed_def split: if_splits)
  moreover have "\<forall>r\<in>set pushed. 1 < snd r - fst r \<and> snd r - fst r < second - first"
    using assms by (auto simp: pushed_def split: if_splits)
  ultimately show ?thesis by blast
qed

section \<open>Quick sort: the partition pass\<close>

text \<open>
  C6. For every non-empty range \<open>[first, second)\<close> inside the sequence, which is what the
  main loop hands to the partition pass, the pass returns with the pivot, the range's
  last element before the pass, at a position \<open>pivot\<close> inside the range; every element
  of the range left of that position is \<open>\<le>\<close> the pivot and every element of the range
  right of it is \<open>>\<close> the pivot. Elements equal to the pivot therefore all end up on the
  left. The pass permutes the sequence and leaves everything outside the range where it
  was.
\<close>

theorem QuickSort_partition_invariant:
  fixes xs :: "'a::linorder list"
  assumes "0 \<le> first" "first < second" "second \<le> int (length xs)"
  shows "\<exists>xs' pivot. QuickSort_partition xs first second = Inr (xs', pivot) \<and>
           first \<le> pivot \<and> pivot < second \<and>
           xs' ! nat pivot = xs ! nat (second - 1) \<and>
           (\<forall>i. first \<le> i \<and> i < pivot \<longrightarrow> xs' ! nat i \<le> xs' ! nat pivot) \<and>
           (\<forall>i. pivot < i \<and> i < second \<longrightarrow> xs' ! nat i > xs' ! nat pivot) \<and>
           (\<forall>i. 0 \<le> i \<and> i < int (length xs) \<and> (i < first \<or> second \<le> i) \<longrightarrow>
              xs' ! nat i = xs ! nat i) \<and>
           mset xs' = mset xs"
  using QuickSort_partition_int [OF assms] by blast

theorem QuickSort_partition_invariant_witness:
  "(0 :: int) \<le> 0 \<and> (0 :: int) < 5 \<and> (5 :: int) \<le> int (length [3, 4, 3, 1, 3 :: nat]) \<and>
   (\<exists>xs' pivot. QuickSort_partition [3, 4, 3, 1, 3 :: nat] 0 5 = Inr (xs', pivot) \<and>
      0 \<le> pivot \<and> pivot < 5 \<and> xs' ! nat pivot = [3, 4, 3, 1, 3 :: nat] ! nat (5 - 1) \<and>
      (\<forall>i. 0 \<le> i \<and> i < pivot \<longrightarrow> xs' ! nat i \<le> xs' ! nat pivot) \<and>
      (\<forall>i. pivot < i \<and> i < 5 \<longrightarrow> xs' ! nat i > xs' ! nat pivot) \<and>
      mset xs' = mset [3, 4, 3, 1, 3 :: nat])"
  using QuickSort_partition_invariant [of 0 5 "[3, 4, 3, 1, 3 :: nat]"] by simp blast

section \<open>Quick sort: the result\<close>

text \<open>
  C2, amended. For every non-empty finite sequence of totally ordered elements
  \<^verbatim>\<open>QuickSort\<close> terminates without a failed assertion or an access outside the sequence,
  and the sequence then holds a permutation of its original elements on which
  \<^verbatim>\<open>IsSorted\<close> returns true; it is the ascending sort of the input.
\<close>

theorem QuickSort_nonempty_sorts:
  fixes xs :: "'a::linorder list"
  assumes "xs \<noteq> []"
  shows "\<exists>ys. QuickSort xs = Some (Inr ys) \<and> mset ys = mset xs \<and>
           IsSorted ys = Inr True \<and> ys = sort xs"
proof -
  have "sort xs \<noteq> []" using assms by (metis length_sort length_0_conv)
  then have "IsSorted (sort xs) = Inr True" by (simp add: IsSorted_sorted)
  with QuickSort_sorts [OF assms] show ?thesis by simp
qed

theorem QuickSort_nonempty_sorts_witness:
  "[2, 3, 1 :: nat] \<noteq> [] \<and> QuickSort [2, 3, 1 :: nat] = Some (Inr [1, 2, 3])"
  using QuickSort_nonempty_sorts [of "[2, 3, 1 :: nat]"] by simp

text \<open>
  C2 as stated includes the empty sequence. There the call ends at the access before
  the sequence (and \<^verbatim>\<open>IsSorted\<close> would fail its assertion on an empty result).
\<close>

theorem QuickSort_empty_counterexample:
  "QuickSort ([] :: nat list) = Some (Inl OutOfBounds) \<and>
   IsSorted ([] :: nat list) = Inl AssertionFailed"
  by (simp add: QuickSort_def QuickSort_loop.simps QuickSort_partition_def QuickSort_scan.simps
      dereferenceable_def IsSorted_def)

section \<open>Quick sort: termination\<close>

text \<open>
  C10. \<^verbatim>\<open>QuickSort\<close> returns on every finite input: the main loop is not \<open>None\<close>. On a
  non-empty input it returns normally; on the empty input it halts at the access of C4.
  The loop ends when the stack is empty. A partition pass on a non-empty range inside
  the sequence puts the pivot at a position of that range, and the ranges pushed
  afterwards are among \<open>[first, pivot)\<close> and \<open>[pivot + 1, second)\<close>, strictly left and
  strictly right of the pivot; each pushed range has more than one element and is
  strictly shorter than the range processed.
\<close>

theorem QuickSort_terminates:
  fixes xs :: "'a::linorder list"
  shows "(\<exists>r. QuickSort xs = Some r) \<and>
         (xs \<noteq> [] \<longrightarrow> (\<exists>ys. QuickSort xs = Some (Inr ys))) \<and>
         QuickSort_loop [] xs = Some (Inr xs) \<and>
         (0 \<le> first \<and> first < second \<and> second \<le> int (length xs) \<longrightarrow>
            (\<exists>xs' pivot pushed.
               QuickSort_partition xs first second = Inr (xs', pivot) \<and>
               first \<le> pivot \<and> pivot < second \<and>
               QuickSort_push rest first second pivot = pushed @ rest \<and>
               set pushed \<subseteq> {(first, pivot), (pivot + 1, second)} \<and>
               (\<forall>r\<in>set pushed. 1 < snd r - fst r \<and> snd r - fst r < second - first)))"
proof -
  have total: "\<exists>r. QuickSort xs = Some r"
  proof (cases "xs = []")
    case True
    then show ?thesis
      by (simp add: QuickSort_def QuickSort_loop.simps QuickSort_partition_def
          QuickSort_scan.simps dereferenceable_def)
  next
    case False
    then show ?thesis by (simp add: QuickSort_sorts)
  qed
  have ok: "xs \<noteq> [] \<longrightarrow> (\<exists>ys. QuickSort xs = Some (Inr ys))"
    by (simp add: QuickSort_sorts)
  have step: "\<exists>xs' pivot pushed.
               QuickSort_partition xs first second = Inr (xs', pivot) \<and>
               first \<le> pivot \<and> pivot < second \<and>
               QuickSort_push rest first second pivot = pushed @ rest \<and>
               set pushed \<subseteq> {(first, pivot), (pivot + 1, second)} \<and>
               (\<forall>r\<in>set pushed. 1 < snd r - fst r \<and> snd r - fst r < second - first)"
    if h: "0 \<le> first" "first < second" "second \<le> int (length xs)"
  proof -
    from QuickSort_partition_int [OF h] obtain xs' pivot where
      p: "QuickSort_partition xs first second = Inr (xs', pivot)" "first \<le> pivot" "pivot < second"
      by blast
    from QuickSort_push_ranges [OF p(2,3), of rest] p show ?thesis by blast
  qed
  from total ok step show ?thesis
    by (simp add: QuickSort_loop_Nil)
qed

theorem QuickSort_terminates_witness:
  "[2, 3, 1 :: nat] \<noteq> [] \<and> (0 :: int) \<le> 0 \<and> (0 :: int) < 3 \<and>
   (3 :: int) \<le> int (length [2, 3, 1 :: nat]) \<and>
   (\<exists>ys. QuickSort [2, 3, 1 :: nat] = Some (Inr ys)) \<and>
   (\<exists>xs' pivot pushed.
       QuickSort_partition [2, 3, 1 :: nat] 0 3 = Inr (xs', pivot) \<and> 0 \<le> pivot \<and> pivot < 3 \<and>
       QuickSort_push [] 0 3 pivot = pushed @ [] \<and>
       set pushed \<subseteq> {(0, pivot), (pivot + 1, 3)} \<and>
       (\<forall>r\<in>set pushed. 1 < snd r - fst r \<and> snd r - fst r < 3 - 0))"
  using QuickSort_terminates [of "[2, 3, 1 :: nat]" 0 3 "[]"] by simp

section \<open>Insertion sort: search, insertion and the loop\<close>

lemma InsertionSort_search_step:
  assumes "1 < en - start" "en \<le> length destination"
  shows "InsertionSort_search destination element start en =
     (if element > destination ! (start + (en - 1 - start) div 2)
      then InsertionSort_search destination element (start + (en - 1 - start) div 2 + 1) en
      else InsertionSort_search destination element start (start + (en - 1 - start) div 2 + 1))"
proof -
  define pivotIndex where "pivotIndex = start + (en - 1 - start) div 2"
  have a: "pivotIndex < length destination" "1 \<le> en - (pivotIndex + 1)"
      "1 \<le> (pivotIndex + 1) - start"
    using assms unfolding pivotIndex_def by arith+
  show ?thesis
    unfolding pivotIndex_def [symmetric]
    by (subst InsertionSort_search.simps)
       (simp only: assms(1) Let_def pivotIndex_def [symmetric] a if_True if_False simp_thms)
qed

lemma InsertionSort_search_correct:
  fixes destination :: "'a::linorder list"
  assumes "sorted destination"
  shows "start < en \<Longrightarrow> en \<le> length destination \<Longrightarrow>
    \<forall>i. i < start \<longrightarrow> destination ! i < element \<Longrightarrow>
    \<forall>i. en \<le> i \<and> i < length destination \<longrightarrow> element \<le> destination ! i \<Longrightarrow>
    \<exists>k. InsertionSort_search destination element start en = Inr (k, k + 1) \<and>
      k < length destination \<and> (\<forall>i. i < k \<longrightarrow> destination ! i < element) \<and>
      (\<forall>i. k + 1 \<le> i \<and> i < length destination \<longrightarrow> element \<le> destination ! i)"
proof (induction "en - start" arbitrary: start en rule: less_induct)
  case less
  show ?case
  proof (cases "1 < en - start")
    case False
    with less.prems have e: "en = start + 1" by simp
    have "InsertionSort_search destination element start en = Inr (start, start + 1)"
      using e by (subst InsertionSort_search.simps) simp
    with less.prems e show ?thesis by auto
  next
    case True
    define pivotIndex where "pivotIndex = start + (en - 1 - start) div 2"
    have b: "start \<le> pivotIndex" "pivotIndex + 1 < en" "pivotIndex < length destination"
      using True less.prems(2) unfolding pivotIndex_def by arith+
    note step = InsertionSort_search_step [OF True less.prems(2), of element,
        unfolded pivotIndex_def [symmetric]]
    show ?thesis
    proof (cases "element > destination ! pivotIndex")
      case gt: True
      have lower: "\<forall>i. i < pivotIndex + 1 \<longrightarrow> destination ! i < element"
      proof (intro allI impI)
        fix i assume "i < pivotIndex + 1"
        then have "i \<le> pivotIndex" by simp
        with assms b(3) have "destination ! i \<le> destination ! pivotIndex"
          by (simp add: sorted_nth_mono)
        with gt show "destination ! i < element" by simp
      qed
      have "\<exists>k. InsertionSort_search destination element (pivotIndex + 1) en = Inr (k, k + 1) \<and>
          k < length destination \<and> (\<forall>i. i < k \<longrightarrow> destination ! i < element) \<and>
          (\<forall>i. k + 1 \<le> i \<and> i < length destination \<longrightarrow> element \<le> destination ! i)"
      proof (rule less.hyps)
        show "en - (pivotIndex + 1) < en - start" using b by arith
        show "pivotIndex + 1 < en" by (rule b(2))
        show "en \<le> length destination" by (rule less.prems(2))
        show "\<forall>i. i < pivotIndex + 1 \<longrightarrow> destination ! i < element" by (rule lower)
        show "\<forall>i. en \<le> i \<and> i < length destination \<longrightarrow> element \<le> destination ! i"
          by (rule less.prems(4))
      qed
      with gt step show ?thesis by simp
    next
      case le: False
      have upper: "\<forall>i. pivotIndex + 1 \<le> i \<and> i < length destination \<longrightarrow> element \<le> destination ! i"
      proof (intro allI impI)
        fix i assume "pivotIndex + 1 \<le> i \<and> i < length destination"
        with assms have "destination ! pivotIndex \<le> destination ! i"
          by (simp add: sorted_nth_mono)
        with le show "element \<le> destination ! i" by simp
      qed
      have "\<exists>k. InsertionSort_search destination element start (pivotIndex + 1) = Inr (k, k + 1) \<and>
          k < length destination \<and> (\<forall>i. i < k \<longrightarrow> destination ! i < element) \<and>
          (\<forall>i. k + 1 \<le> i \<and> i < length destination \<longrightarrow> element \<le> destination ! i)"
      proof (rule less.hyps)
        show "pivotIndex + 1 - start < en - start" using b by arith
        show "start < pivotIndex + 1" using b by simp
        show "pivotIndex + 1 \<le> length destination" using b by simp
        show "\<forall>i. i < start \<longrightarrow> destination ! i < element" by (rule less.prems(3))
        show "\<forall>i. pivotIndex + 1 \<le> i \<and> i < length destination \<longrightarrow> element \<le> destination ! i"
          by (rule upper)
      qed
      with le step show ?thesis by simp
    qed
  qed
qed

lemma sorted_insert_at:
  fixes xs :: "'a::linorder list"
  assumes "sorted xs" "k \<le> length xs" "\<forall>i. i < k \<longrightarrow> xs ! i \<le> v"
    "\<forall>i. k \<le> i \<and> i < length xs \<longrightarrow> v \<le> xs ! i"
  shows "sorted (insert_at xs k v)"
proof -
  have 1: "\<forall>x\<in>set (take k xs). x \<le> v"
    using assms(2,3) by (auto simp: in_set_conv_nth)
  have 2: "\<forall>x\<in>set (drop k xs). v \<le> x"
    using assms(2,4) by (auto simp: in_set_conv_nth)
  have 3: "\<forall>x\<in>set (take k xs). \<forall>y\<in>set (drop k xs). x \<le> y"
    using 1 2 by fastforce
  have "sorted (take k xs)" "sorted (drop k xs)"
    using assms(1) by (simp_all add: sorted_wrt_take sorted_wrt_drop)
  with 1 2 3 show ?thesis
    by (simp add: insert_at_def sorted_append)
qed

lemma mset_insert_at: "mset (insert_at xs k v) = add_mset v (mset xs)"
proof -
  have "mset (take k xs) + mset (drop k xs) = mset xs"
    by (metis append_take_drop_id mset_append)
  then show ?thesis by (simp add: insert_at_def)
qed

lemma InsertionSort_insert_correct:
  fixes destination :: "'a::linorder list"
  assumes "sorted destination" "destination \<noteq> []"
  shows "\<exists>result. InsertionSort_insert destination element = Inr result \<and>
           sorted result \<and> mset result = add_mset element (mset destination) \<and>
           length result = length destination + 1"
proof -
  have "\<exists>k. InsertionSort_search destination element 0 (length destination) = Inr (k, k + 1) \<and>
      k < length destination \<and> (\<forall>i. i < k \<longrightarrow> destination ! i < element) \<and>
      (\<forall>i. k + 1 \<le> i \<and> i < length destination \<longrightarrow> element \<le> destination ! i)"
    using assms(2) by (intro InsertionSort_search_correct [OF assms(1)]) auto
  then obtain k where k: "InsertionSort_search destination element 0 (length destination) = Inr (k, k + 1)"
      "k < length destination" "\<forall>i. i < k \<longrightarrow> destination ! i < element"
      "\<forall>i. k + 1 \<le> i \<and> i < length destination \<longrightarrow> element \<le> destination ! i"
    by blast
  define result where "result =
     (if element > destination ! k then insert_at destination (k + 1) element
      else insert_at destination k element)"
  have res: "InsertionSort_insert destination element = Inr result"
    unfolding InsertionSort_insert_def k(1) result_def using k(2) by (simp add: Let_def)
  have "sorted result"
  proof (cases "element > destination ! k")
    case True
    have "\<forall>i. i < k + 1 \<longrightarrow> destination ! i \<le> element"
    proof (intro allI impI)
      fix i assume "i < k + 1"
      then have "i \<le> k" by simp
      with assms(1) k(2) have "destination ! i \<le> destination ! k"
        by (simp add: sorted_nth_mono)
      with True show "destination ! i \<le> element" by simp
    qed
    with True k(2,4) assms(1) show ?thesis
      unfolding result_def by (simp add: sorted_insert_at)
  next
    case False
    have "\<forall>i. k \<le> i \<and> i < length destination \<longrightarrow> element \<le> destination ! i"
    proof (intro allI impI)
      fix i assume "k \<le> i \<and> i < length destination"
      with assms(1) have "destination ! k \<le> destination ! i"
        by (simp add: sorted_nth_mono)
      with False show "element \<le> destination ! i" by simp
    qed
    moreover have "\<forall>i. i < k \<longrightarrow> destination ! i \<le> element"
      using k(3) by (simp add: less_imp_le)
    ultimately show ?thesis
      using False k(2) assms(1) unfolding result_def by (simp add: sorted_insert_at)
  qed
  moreover have "mset result = add_mset element (mset destination)"
    by (simp add: result_def mset_insert_at)
  moreover have "length result = length destination + 1"
    using k(2) by (auto simp: result_def insert_at_def)
  ultimately show ?thesis using res by blast
qed

lemma InsertionSort_loop_correct:
  fixes destination :: "'a::linorder list"
  shows "sorted destination \<Longrightarrow> destination \<noteq> [] \<Longrightarrow>
    \<exists>result. InsertionSort_loop source destination = Inr result \<and> sorted result \<and>
      result \<noteq> [] \<and>
      mset result = mset destination + mset source \<and>
      length result = length destination + length source"
proof (induction source arbitrary: destination)
  case Nil
  then show ?case by simp
next
  case (Cons element source)
  from InsertionSort_insert_correct [OF Cons.prems, of element]
  obtain d where d: "InsertionSort_insert destination element = Inr d" "sorted d"
      "mset d = add_mset element (mset destination)" "length d = length destination + 1"
    by blast
  then have "d \<noteq> []" by auto
  from Cons.IH [OF d(2) this] d show ?case by auto
qed

lemma InsertionSort_loop_snoc:
  "InsertionSort_loop (source @ [element]) destination =
     (case InsertionSort_loop source destination of
        Inl e \<Rightarrow> Inl e
      | Inr d \<Rightarrow> InsertionSort_insert d element)"
  by (induction source arbitrary: destination) (auto split: sum.splits)

lemma InsertionSort_enters_loop:
  fixes destination :: "'a::linorder list"
  shows "destination \<noteq> [] \<Longrightarrow> IsSorted destination = Inr True \<Longrightarrow>
    InsertionSort source destination = InsertionSort_loop source destination"
  by (simp add: InsertionSort_def)

text \<open>
  C8. For every source and every non-empty destination on which \<^verbatim>\<open>IsSorted\<close> returns
  true, \<^verbatim>\<open>InsertionSort\<close> returns with the destination holding its original elements
  and the elements of the source, in ascending order, and its size is the original size
  plus the size of the source. After \<open>k\<close> insertions the destination is ascending and has
  grown by \<open>k\<close>; the next insertion makes it one longer and leaves it ascending. An empty
  destination, or one on which \<^verbatim>\<open>IsSorted\<close> returns false, fails an assertion, before
  anything is inserted.
\<close>

theorem InsertionSort_merges_into_sorted:
  fixes source destination :: "'a::linorder list"
  shows "(destination \<noteq> [] \<and> IsSorted destination = Inr True \<longrightarrow>
           (\<exists>result. InsertionSort source destination = Inr result \<and>
              mset result = mset destination + mset source \<and>
              IsSorted result = Inr True \<and>
              length result = length destination + length source) \<and>
           (\<forall>k. k < length source \<longrightarrow>
              (\<exists>before after.
                 InsertionSort (take k source) destination = Inr before \<and>
                 InsertionSort_insert before (source ! k) = Inr after \<and>
                 InsertionSort (take (k + 1) source) destination = Inr after \<and>
                 IsSorted before = Inr True \<and> IsSorted after = Inr True \<and>
                 length before = length destination + k \<and>
                 length after = length before + 1))) \<and>
         (destination = [] \<or> IsSorted destination = Inr False \<longrightarrow>
            InsertionSort source destination = Inl AssertionFailed)"
proof (intro conjI impI)
  assume "destination = [] \<or> IsSorted destination = Inr False"
  then show "InsertionSort source destination = Inl AssertionFailed"
    by (auto simp: InsertionSort_def)
next
  assume h: "destination \<noteq> [] \<and> IsSorted destination = Inr True"
  then have ne: "destination \<noteq> []" by simp
  from IsSorted_sorted [OF ne] h have "(Inr (sorted destination) :: error + bool) = Inr True"
    by simp
  with ne have s: "sorted destination" "destination \<noteq> []"
    by simp_all
  note enter = InsertionSort_enters_loop [OF h [THEN conjunct1] h [THEN conjunct2]]
  from InsertionSort_loop_correct [OF s, of source]
  obtain result where r: "InsertionSort_loop source destination = Inr result" "sorted result"
      "result \<noteq> []" "mset result = mset destination + mset source"
      "length result = length destination + length source"
    by blast
  then show "\<exists>result. InsertionSort source destination = Inr result \<and>
              mset result = mset destination + mset source \<and>
              IsSorted result = Inr True \<and>
              length result = length destination + length source"
    by (simp add: enter IsSorted_sorted)
  show "\<forall>k. k < length source \<longrightarrow>
              (\<exists>before after.
                 InsertionSort (take k source) destination = Inr before \<and>
                 InsertionSort_insert before (source ! k) = Inr after \<and>
                 InsertionSort (take (k + 1) source) destination = Inr after \<and>
                 IsSorted before = Inr True \<and> IsSorted after = Inr True \<and>
                 length before = length destination + k \<and>
                 length after = length before + 1)"
  proof (intro allI impI)
    fix k assume k: "k < length source"
    from InsertionSort_loop_correct [OF s, of "take k source"]
    obtain before where b: "InsertionSort_loop (take k source) destination = Inr before"
        "sorted before" "before \<noteq> []" "length before = length destination + length (take k source)"
      by blast
    from InsertionSort_insert_correct [OF b(2,3), of "source ! k"]
    obtain after where a: "InsertionSort_insert before (source ! k) = Inr after" "sorted after"
        "length after = length before + 1"
      by blast
    then have "after \<noteq> []" by auto
    have "take (k + 1) source = take k source @ [source ! k]"
      using k by (simp add: take_Suc_conv_app_nth)
    then have "InsertionSort_loop (take (k + 1) source) destination = Inr after"
      using InsertionSort_loop_snoc [of "take k source" "source ! k" destination] b(1) a(1)
      by simp
    with a b k \<open>after \<noteq> []\<close> show "\<exists>before after.
                 InsertionSort (take k source) destination = Inr before \<and>
                 InsertionSort_insert before (source ! k) = Inr after \<and>
                 InsertionSort (take (k + 1) source) destination = Inr after \<and>
                 IsSorted before = Inr True \<and> IsSorted after = Inr True \<and>
                 length before = length destination + k \<and>
                 length after = length before + 1"
      by (simp add: enter InsertionSort_enters_loop [OF h [THEN conjunct1] h [THEN conjunct2]]
          IsSorted_sorted)
  qed
qed

theorem InsertionSort_merges_into_sorted_witness:
  "[1, 3 :: nat] \<noteq> [] \<and> IsSorted [1, 3 :: nat] = Inr True \<and>
   (\<exists>result. InsertionSort [5, 0, 3] [1, 3 :: nat] = Inr result \<and>
      mset result = mset [1, 3] + mset [5, 0, 3] \<and> IsSorted result = Inr True \<and>
      length result = length [1, 3 :: nat] + length [5, 0, 3 :: nat]) \<and>
   ([] = ([] :: nat list) \<or> IsSorted ([] :: nat list) = Inr False) \<and>
   InsertionSort [5, 0, 3] ([] :: nat list) = Inl AssertionFailed"
proof -
  have h: "IsSorted [1, 3 :: nat] = Inr True" by code_simp
  from InsertionSort_merges_into_sorted [of "[1, 3 :: nat]" "[5, 0, 3]"]
    InsertionSort_merges_into_sorted [of "[] :: nat list" "[5, 0, 3]"] h
  show ?thesis by simp
qed

section \<open>Bucket sort: counting and reconstruction\<close>



















section \<open>Merge sort: the merge loop and the pass on lists\<close>

lemma merge_blocks_Nil2 [simp]: "merge_blocks xs [] = xs"
  by (cases xs) simp_all

lemma length_merge_blocks [simp]: "length (merge_blocks xs ys) = length xs + length ys"
  by (induction xs ys rule: merge_blocks.induct) simp_all

lemma MergeSort_merge_done:
  "first = lastp \<Longrightarrow> firstNext = lastNext \<Longrightarrow>
   MergeSort_merge rd wr first lastp firstNext lastNext wh = Inr (wr, wh)"
  by (subst MergeSort_merge.simps) simp

lemma MergeSort_merge_left_only:
  "firstNext = lastNext \<Longrightarrow> first \<noteq> lastp \<Longrightarrow> first < length rd \<Longrightarrow> wh < length wr \<Longrightarrow>
   MergeSort_merge rd wr first lastp firstNext lastNext wh =
     MergeSort_merge rd (wr[wh := rd ! first]) (first + 1) lastp firstNext lastNext (wh + 1)"
  by (subst MergeSort_merge.simps) simp

lemma MergeSort_merge_right_only:
  "firstNext \<noteq> lastNext \<Longrightarrow> first = lastp \<Longrightarrow> firstNext < length rd \<Longrightarrow> wh < length wr \<Longrightarrow>
   MergeSort_merge rd wr first lastp firstNext lastNext wh =
     MergeSort_merge rd (wr[wh := rd ! firstNext]) first lastp (firstNext + 1) lastNext (wh + 1)"
  by (subst MergeSort_merge.simps) simp

lemma MergeSort_merge_compare:
  "firstNext \<noteq> lastNext \<Longrightarrow> first \<noteq> lastp \<Longrightarrow> firstNext < length rd \<Longrightarrow>
   first < length rd \<Longrightarrow> wh < length wr \<Longrightarrow>
   MergeSort_merge rd wr first lastp firstNext lastNext wh =
     (if rd ! firstNext < rd ! first then
        MergeSort_merge rd (wr[wh := rd ! firstNext]) first lastp (firstNext + 1) lastNext (wh + 1)
      else
        MergeSort_merge rd (wr[wh := rd ! first]) (first + 1) lastp firstNext lastNext (wh + 1))"
  by (subst MergeSort_merge.simps) simp

lemma slice_Cons: "a < b \<Longrightarrow> b \<le> length xs \<Longrightarrow> slice xs a b = xs ! a # slice xs (a + 1) b"
proof -
  assume a: "a < b" "b \<le> length xs"
  then have "drop a xs = xs ! a # drop (a + 1) xs" by (simp add: Cons_nth_drop_Suc)
  moreover from a obtain d where "b - a = Suc d" "b - (a + 1) = d"
    by (cases "b - a") auto
  ultimately show ?thesis by (simp add: slice_def)
qed

lemma slice_empty [simp]: "slice xs a a = []"
  by (simp add: slice_def)

lemma take_update_snoc: "wh < length wr \<Longrightarrow> take (Suc wh) (wr[wh := v]) = take wh wr @ [v]"
  by (simp add: take_Suc_conv_app_nth)

lemma MergeSort_merge_refines:
  "first \<le> lastp \<Longrightarrow> lastp \<le> length rd \<Longrightarrow> firstNext \<le> lastNext \<Longrightarrow> lastNext \<le> length rd \<Longrightarrow>
   wh + (lastp - first) + (lastNext - firstNext) \<le> length wr \<Longrightarrow>
   MergeSort_merge rd wr first lastp firstNext lastNext wh =
     Inr (take wh wr @ merge_blocks (slice rd first lastp) (slice rd firstNext lastNext) @
            drop (wh + (lastp - first) + (lastNext - firstNext)) wr,
          wh + (lastp - first) + (lastNext - firstNext))"
proof (induction "(lastp - first) + (lastNext - firstNext)" arbitrary: wr first firstNext wh)
  case 0
  then have e: "first = lastp" "firstNext = lastNext" by simp_all
  then show ?case by (simp add: MergeSort_merge_done)
next
  case (Suc n)
  let ?emit_left = "firstNext = lastNext \<or> (first \<noteq> lastp \<and> \<not> rd ! firstNext < rd ! first)"
  show ?case
  proof (cases ?emit_left)
    case True
    with Suc.hyps(2) Suc.prems(1) have f: "first < lastp" by auto
    with Suc.prems have b: "first < length rd" "wh < length wr" by simp_all
    let ?wr1 = "wr[wh := rd ! first]"
    have step: "MergeSort_merge rd wr first lastp firstNext lastNext wh =
        MergeSort_merge rd ?wr1 (first + 1) lastp firstNext lastNext (wh + 1)"
    proof (cases "firstNext = lastNext")
      case True
      with f b show ?thesis by (simp add: MergeSort_merge_left_only)
    next
      case False
      with Suc.prems have "firstNext < length rd" by simp
      with False f b \<open>?emit_left\<close> show ?thesis by (simp add: MergeSort_merge_compare)
    qed
    have ih: "MergeSort_merge rd ?wr1 (first + 1) lastp firstNext lastNext (wh + 1) =
       Inr (take (wh + 1) ?wr1 @
              merge_blocks (slice rd (first + 1) lastp) (slice rd firstNext lastNext) @
              drop (wh + 1 + (lastp - (first + 1)) + (lastNext - firstNext)) ?wr1,
            wh + 1 + (lastp - (first + 1)) + (lastNext - firstNext))"
    proof (rule Suc.hyps(1))
      show "n = lastp - (first + 1) + (lastNext - firstNext)" using Suc.hyps(2) f by simp
      show "first + 1 \<le> lastp" using f by simp
      show "lastp \<le> length rd" by (rule Suc.prems(2))
      show "firstNext \<le> lastNext" by (rule Suc.prems(3))
      show "lastNext \<le> length rd" by (rule Suc.prems(4))
      show "wh + 1 + (lastp - (first + 1)) + (lastNext - firstNext) \<le> length ?wr1"
        using Suc.prems(5) f by simp
    qed
    have w: "wh + 1 + (lastp - (first + 1)) + (lastNext - firstNext) =
        wh + (lastp - first) + (lastNext - firstNext)" using f by simp
    have d: "drop (wh + (lastp - first) + (lastNext - firstNext)) ?wr1 =
        drop (wh + (lastp - first) + (lastNext - firstNext)) wr"
      using f by simp
    have m: "merge_blocks (slice rd first lastp) (slice rd firstNext lastNext) =
        rd ! first # merge_blocks (slice rd (first + 1) lastp) (slice rd firstNext lastNext)"
    proof (cases "firstNext = lastNext")
      case True
      then show ?thesis using slice_Cons [OF f Suc.prems(2)] by simp
    next
      case False
      with Suc.prems have fn: "firstNext < lastNext" by simp
      from False True have "\<not> rd ! firstNext < rd ! first" by simp
      then show ?thesis
        using slice_Cons [OF f Suc.prems(2)] slice_Cons [OF fn Suc.prems(4)] by simp
    qed
    show ?thesis
      unfolding step ih w d m using b by (simp add: take_update_snoc)
  next
    case False
    then have fn: "firstNext < lastNext" and c: "first = lastp \<or> rd ! firstNext < rd ! first"
      using Suc.prems(3) by auto
    with Suc.prems have b: "firstNext < length rd" "wh < length wr" by simp_all
    let ?wr1 = "wr[wh := rd ! firstNext]"
    have step: "MergeSort_merge rd wr first lastp firstNext lastNext wh =
        MergeSort_merge rd ?wr1 first lastp (firstNext + 1) lastNext (wh + 1)"
    proof (cases "first = lastp")
      case True
      with fn b show ?thesis by (simp add: MergeSort_merge_right_only)
    next
      case False
      with Suc.prems have "first < length rd" by simp
      with False fn b c show ?thesis by (simp add: MergeSort_merge_compare)
    qed
    have ih: "MergeSort_merge rd ?wr1 first lastp (firstNext + 1) lastNext (wh + 1) =
       Inr (take (wh + 1) ?wr1 @
              merge_blocks (slice rd first lastp) (slice rd (firstNext + 1) lastNext) @
              drop (wh + 1 + (lastp - first) + (lastNext - (firstNext + 1))) ?wr1,
            wh + 1 + (lastp - first) + (lastNext - (firstNext + 1)))"
    proof (rule Suc.hyps(1))
      show "n = lastp - first + (lastNext - (firstNext + 1))" using Suc.hyps(2) fn by simp
      show "first \<le> lastp" by (rule Suc.prems(1))
      show "lastp \<le> length rd" by (rule Suc.prems(2))
      show "firstNext + 1 \<le> lastNext" using fn by simp
      show "lastNext \<le> length rd" by (rule Suc.prems(4))
      show "wh + 1 + (lastp - first) + (lastNext - (firstNext + 1)) \<le> length ?wr1"
        using Suc.prems(5) fn by simp
    qed
    have w: "wh + 1 + (lastp - first) + (lastNext - (firstNext + 1)) =
        wh + (lastp - first) + (lastNext - firstNext)" using fn by simp
    have d: "drop (wh + (lastp - first) + (lastNext - firstNext)) ?wr1 =
        drop (wh + (lastp - first) + (lastNext - firstNext)) wr"
      using fn by simp
    have m: "merge_blocks (slice rd first lastp) (slice rd firstNext lastNext) =
        rd ! firstNext # merge_blocks (slice rd first lastp) (slice rd (firstNext + 1) lastNext)"
    proof (cases "first = lastp")
      case True
      then show ?thesis using slice_Cons [OF fn Suc.prems(4)] by simp
    next
      case False
      with Suc.prems have f: "first < lastp" by simp
      from False c have "rd ! firstNext < rd ! first" by simp
      then show ?thesis
        using slice_Cons [OF f Suc.prems(2)] slice_Cons [OF fn Suc.prems(4)] by simp
    qed
    show ?thesis
      unfolding step ih w d m using b by (simp add: take_update_snoc)
  qed
qed

lemma MergeSort_pass_done:
  "\<not> i < numBlocks \<Longrightarrow>
   MergeSort_pass n bs numBlocks rd wr i wh = Inr (wr, wh)"
  by (subst MergeSort_pass.simps) simp

lemma MergeSort_pass_step:
  "i < numBlocks \<Longrightarrow>
   MergeSort_merge rd wr (i * bs) ((i + 1) * bs) ((i + 1) * bs)
     (Detail_Min ((i + 2) * bs) n) wh = Inr (wr1, wh1) \<Longrightarrow>
   MergeSort_pass n bs numBlocks rd wr i wh = MergeSort_pass n bs numBlocks rd wr1 (i + 2) wh1"
  by (subst MergeSort_pass.simps) simp

lemma Detail_Min_nat: "Detail_Min (a :: nat) b = min a b"
  by (auto simp: Detail_Min_def)

lemma MergeSort_pass_refines:
  assumes bs: "0 < bs" and len: "length rd = n" "length wr = n"
  shows "\<exists>wh'. MergeSort_pass n bs (n div bs) rd wr i (min (i * bs) n) =
           Inr (take (i * bs) wr @ merge_pass bs (drop (i * bs) rd) (drop (i * bs) wr), wh')"
  using len(2)
proof (induction "n div bs + 1 - i" arbitrary: i wr rule: less_induct)
  case less
  show ?case
  proof (cases "i < n div bs")
    case False
    then have "n div bs < i + 1" by simp
    then have "n < (i + 1) * bs"
      using bs by (simp add: div_less_iff_less_mult)
    then have "n - i * bs < bs" using bs by simp
    then have "length (drop (i * bs) rd) < bs" using len(1) by simp
    then have "merge_pass bs (drop (i * bs) rd) (drop (i * bs) wr) = drop (i * bs) wr"
      by (subst merge_pass.simps) simp
    with False show ?thesis by (simp add: MergeSort_pass_done)
  next
    case True
    define a where "a = i * bs"
    define e where "e = min (a + 2 * bs) n"
    from True have "i + 1 \<le> n div bs" by simp
    then have "(i + 1) * bs \<le> n" using bs by (simp add: less_eq_div_iff_mult_less_eq)
    then have ab: "a + bs \<le> n" by (simp add: a_def)
    have ar: "(i + 1) * bs = a + bs" "(i + 2) * bs = a + 2 * bs" "min (i * bs) n = a"
      "(i + 2) * bs = a + bs + bs"
      using ab by (simp_all add: a_def)
    have eb: "a + bs \<le> e" "e \<le> n" "e \<le> a + 2 * bs" using ab by (simp_all add: e_def)
    let ?M = "merge_blocks (slice rd a (a + bs)) (slice rd (a + bs) e)"
    let ?wr1 = "take a wr @ ?M @ drop e wr"
    have "MergeSort_merge rd wr a (a + bs) (a + bs) e a =
        Inr (take a wr @ merge_blocks (slice rd a (a + bs)) (slice rd (a + bs) e) @
               drop (a + (a + bs - a) + (e - (a + bs))) wr,
             a + (a + bs - a) + (e - (a + bs)))"
      using eb ab len less.prems by (intro MergeSort_merge_refines) simp_all
    moreover have "a + (a + bs - a) + (e - (a + bs)) = e" using eb by simp
    ultimately have mg: "MergeSort_merge rd wr a (a + bs) (a + bs) e a = Inr (?wr1, e)"
      by simp
    have mg': "MergeSort_merge rd wr (i * bs) ((i + 1) * bs) ((i + 1) * bs)
        (Detail_Min ((i + 2) * bs) n) a = Inr (?wr1, e)"
      unfolding ar(1,2) Detail_Min_nat a_def [symmetric] e_def [symmetric] by (rule mg)
    have step: "MergeSort_pass n bs (n div bs) rd wr i a =
        MergeSort_pass n bs (n div bs) rd ?wr1 (i + 2) e"
      by (rule MergeSort_pass_step [OF True mg'])
    have ma: "min a n = a" using ab by simp
    have lM: "length ?M = e - a" using eb len(1) by (simp add: length_slice)
    have l1: "length ?wr1 = n" using eb ab less.prems lM by simp
    have e2: "e = min ((i + 2) * bs) n" by (simp only: e_def ar(2))
    have "\<exists>wh'. MergeSort_pass n bs (n div bs) rd ?wr1 (i + 2) (min ((i + 2) * bs) n) =
        Inr (take ((i + 2) * bs) ?wr1 @
             merge_pass bs (drop ((i + 2) * bs) rd) (drop ((i + 2) * bs) ?wr1), wh')"
    proof (rule less.hyps)
      show "n div bs + 1 - (i + 2) < n div bs + 1 - i" using True by simp
      show "length ?wr1 = n" by (rule l1)
    qed
    then obtain wh' where ih: "MergeSort_pass n bs (n div bs) rd ?wr1 (i + 2) e =
        Inr (take (a + 2 * bs) ?wr1 @
             merge_pass bs (drop (a + 2 * bs) rd) (drop (a + 2 * bs) ?wr1), wh')"
      unfolding ar(2) e_def [symmetric] by blast
    have unf: "merge_pass bs (drop a rd) (drop a wr) =
        merge_blocks (take bs (drop a rd)) (take bs (drop bs (drop a rd))) @
        merge_pass bs (drop (2 * bs) (drop a rd)) (drop (2 * bs) (drop a wr))"
    proof -
      have c: "\<not> (bs = 0 \<or> length (drop a rd) < bs)" using bs ab len(1) by auto
      show ?thesis by (subst merge_pass.simps) (simp only: c if_False)
    qed
    have s1: "take bs (drop a rd) = slice rd a (a + bs)" by (simp add: slice_def)
    have s2: "take bs (drop bs (drop a rd)) = slice rd (a + bs) e"
    proof -
      have "take bs (drop (a + bs) rd) = take (e - (a + bs)) (drop (a + bs) rd)"
      proof (cases "a + 2 * bs \<le> n")
        case True
        then have "e = a + 2 * bs" by (simp add: e_def)
        then show ?thesis by simp
      next
        case False
        then have "e = n" by (simp add: e_def)
        with False len(1) show ?thesis by simp
      qed
      then show ?thesis by (simp add: slice_def add.commute)
    qed
    have tail: "take (a + 2 * bs) ?wr1 @
             merge_pass bs (drop (a + 2 * bs) rd) (drop (a + 2 * bs) ?wr1) =
          take a wr @ ?M @ merge_pass bs (drop (a + 2 * bs) rd) (drop (a + 2 * bs) wr)"
    proof (cases "a + 2 * bs \<le> n")
      case True
      then have ee: "e = a + 2 * bs" by (simp add: e_def)
      have la: "length (take a wr) = a" using ab less.prems by simp
      have "take (a + 2 * bs) ?wr1 = take a wr @ ?M"
        using la lM ee by simp
      moreover have "drop (a + 2 * bs) ?wr1 = drop (a + 2 * bs) wr"
        using la lM ee by simp
      ultimately show ?thesis by simp
    next
      case False
      then have ee: "e = n" by (simp add: e_def)
      have "drop e wr = []" using ee less.prems by simp
      moreover have "drop (a + 2 * bs) rd = []" using False len(1) by simp
      moreover have "drop (a + 2 * bs) wr = []" using False less.prems by simp
      moreover have "merge_pass bs [] [] = ([] :: 'a list)"
        using bs by (subst merge_pass.simps) simp
      ultimately show ?thesis using l1 False by simp
    qed
    have "take a wr @ merge_pass bs (drop a rd) (drop a wr) =
          take a wr @ ?M @ merge_pass bs (drop (a + 2 * bs) rd) (drop (a + 2 * bs) wr)"
      unfolding unf s1 s2 by (simp add: add.commute)
    with step ih tail
    have "\<exists>wh'. MergeSort_pass n bs (n div bs) rd wr i a =
           Inr (take a wr @ merge_pass bs (drop a rd) (drop a wr), wh')"
      by simp
    then show ?thesis
      by (simp only: a_def [symmetric] ma)
  qed
qed

section \<open>Merge sort: blocks keep the order of equal keys\<close>

lemma with_key_append [simp]: "with_key k (xs @ ys) = with_key k xs @ with_key k ys"
  by (simp add: with_key_def)

lemma with_key_Nil [simp]: "with_key k [] = []"
  by (simp add: with_key_def)

lemma stable_blocks_length: "stable_blocks bs k rd orig \<Longrightarrow> length rd = length orig"
  by (subst (asm) stable_blocks.simps) (simp split: if_splits)

lemma stable_blocks_Nil: "stable_blocks bs k [] []"
  by (subst stable_blocks.simps) simp

lemma stable_blocks_unfold:
  "0 < bs \<Longrightarrow> rd \<noteq> [] \<Longrightarrow>
   stable_blocks bs k rd orig =
     (length rd = length orig \<and> with_key k (take bs rd) = with_key k (take bs orig) \<and>
      stable_blocks bs k (drop bs rd) (drop bs orig))"
  by (subst stable_blocks.simps) auto

lemma sorted_blocks_short: "length rd < bs \<Longrightarrow> sorted_blocks bs rd"
  by (subst sorted_blocks.simps) simp

lemma sorted_blocks_unfold:
  "0 < bs \<Longrightarrow> bs \<le> length rd \<Longrightarrow>
   sorted_blocks bs rd = (sorted (map key (take bs rd)) \<and> sorted_blocks bs (drop bs rd))"
  by (subst sorted_blocks.simps) auto

lemma stable_blocks_refl: "stable_blocks bs k xs xs"
proof (induction "length xs" arbitrary: xs rule: less_induct)
  case less
  show ?case
  proof (cases "bs = 0 \<or> xs = []")
    case True
    then show ?thesis by (subst stable_blocks.simps) auto
  next
    case False
    then have "length (drop bs xs) < length xs" by simp
    then have "stable_blocks bs k (drop bs xs) (drop bs xs)" by (rule less.hyps)
    with False show ?thesis by (simp add: stable_blocks_unfold)
  qed
qed

lemma sorted_blocks_one: "sorted_blocks 1 xs"
proof (induction xs)
  case Nil
  then show ?case by (simp add: sorted_blocks_short)
next
  case (Cons x xs)
  then show ?case by (simp add: sorted_blocks_unfold)
qed

lemma stable_blocks_pair:
  assumes "0 < bs" "stable_blocks bs k rd orig"
  shows "with_key k (take bs rd) = with_key k (take bs orig) \<and>
         with_key k (take bs (drop bs rd)) = with_key k (take bs (drop bs orig)) \<and>
         stable_blocks bs k (drop (2 * bs) rd) (drop (2 * bs) orig)"
proof -
  note len = stable_blocks_length [OF assms(2)]
  have dd: "drop (2 * bs) rd = drop bs (drop bs rd)" "drop (2 * bs) orig = drop bs (drop bs orig)"
    by (simp_all add: mult_2)
  show ?thesis
  proof (cases "rd = []")
    case True
    with len show ?thesis by (simp add: stable_blocks_Nil)
  next
    case False
    with assms have 1: "with_key k (take bs rd) = with_key k (take bs orig)"
      "stable_blocks bs k (drop bs rd) (drop bs orig)"
      by (simp_all add: stable_blocks_unfold)
    note len1 = stable_blocks_length [OF 1(2)]
    show ?thesis
    proof (cases "drop bs rd = []")
      case True
      with len1 have "drop bs orig = []" by simp
      with True 1 show ?thesis by (simp add: dd stable_blocks_Nil)
    next
      case False
      with assms(1) 1(2) have "with_key k (take bs (drop bs rd)) = with_key k (take bs (drop bs orig))"
        "stable_blocks bs k (drop bs (drop bs rd)) (drop bs (drop bs orig))"
        by (simp_all add: stable_blocks_unfold)
      with 1 show ?thesis by (simp add: dd)
    qed
  qed
qed

lemma take_double: "take (2 * bs) xs = take bs xs @ take bs (drop bs xs)"
  by (simp add: mult_2 take_add)

lemma stable_blocks_coarsen:
  assumes "0 < bs"
  shows "stable_blocks bs k rd orig \<Longrightarrow> stable_blocks (2 * bs) k rd orig"
proof (induction "length rd" arbitrary: rd orig rule: less_induct)
  case less
  note len = stable_blocks_length [OF less.prems]
  show ?case
  proof (cases "rd = []")
    case True
    with len show ?thesis by (simp add: stable_blocks_Nil)
  next
    case False
    from stable_blocks_pair [OF assms less.prems]
    have p: "with_key k (take bs rd) = with_key k (take bs orig)"
      "with_key k (take bs (drop bs rd)) = with_key k (take bs (drop bs orig))"
      "stable_blocks bs k (drop (2 * bs) rd) (drop (2 * bs) orig)"
      by simp_all
    have "length (drop (2 * bs) rd) < length rd" using False assms by simp
    from less.hyps [OF this p(3)]
    have "stable_blocks (2 * bs) k (drop (2 * bs) rd) (drop (2 * bs) orig)" .
    moreover have "with_key k (take (2 * bs) rd) = with_key k (take (2 * bs) orig)"
      using p(1,2) by (simp add: take_double)
    ultimately show ?thesis
      using False assms len by (simp add: stable_blocks_unfold)
  qed
qed

lemma set_merge_blocks [simp]: "set (merge_blocks xs ys) = set xs \<union> set ys"
  by (induction xs ys rule: merge_blocks.induct) auto

lemma sorted_merge_blocks:
  fixes xs ys :: "('k::linorder, 't) keyed list"
  shows "sorted (map key xs) \<Longrightarrow> sorted (map key ys) \<Longrightarrow>
    sorted (map key (merge_blocks xs ys))"
  by (induction xs ys rule: merge_blocks.induct) (auto simp: less_keyed_def)

lemma with_key_merge_blocks:
  fixes xs ys :: "('k::linorder, 't) keyed list"
  shows "sorted (map key xs) \<Longrightarrow>
    with_key k (merge_blocks xs ys) = with_key k xs @ with_key k ys"
proof (induction xs ys rule: merge_blocks.induct)
  case (1 ys)
  then show ?case by simp
next
  case (2 x xs)
  then show ?case by simp
next
  case (3 x xs y ys)
  show ?case
  proof (cases "y < x")
    case True
    then have yx: "key y < key x" by (simp add: less_keyed_def)
    from True "3.IH"(1) "3.prems"
    have ih: "with_key k (merge_blocks (x # xs) ys) = with_key k (x # xs) @ with_key k ys"
      by simp
    show ?thesis
    proof (cases "key y = k")
      case False
      with True ih show ?thesis by (simp add: with_key_def)
    next
      case ky: True
      have "\<forall>z\<in>set (x # xs). key z \<noteq> k"
      proof
        fix z assume "z \<in> set (x # xs)"
        with "3.prems" have "key x \<le> key z" by auto
        with yx ky show "key z \<noteq> k" by auto
      qed
      then have "with_key k (x # xs) = []"
        by (auto simp: with_key_def filter_empty_conv)
      with True ih ky show ?thesis by (simp add: with_key_def)
    qed
  next
    case False
    from "3.prems" have "sorted (map key xs)" by simp
    with False "3.IH"(2)
    have "with_key k (merge_blocks xs (y # ys)) = with_key k xs @ with_key k (y # ys)"
      by simp
    with False show ?thesis by (simp add: with_key_def)
  qed
qed

lemma stable_blocks_drop:
  "0 < c \<Longrightarrow> stable_blocks c k xs ys \<Longrightarrow> stable_blocks c k (drop c xs) (drop c ys)"
proof -
  assume c: "0 < c" and s: "stable_blocks c k xs ys"
  note len = stable_blocks_length [OF s]
  show ?thesis
  proof (cases "xs = []")
    case True
    with len show ?thesis by (simp add: stable_blocks_Nil)
  next
    case False
    with c s show ?thesis by (simp add: stable_blocks_unfold)
  qed
qed

lemma stable_blocks_whole:
  "0 < bs \<Longrightarrow> length rd \<le> bs \<Longrightarrow> stable_blocks bs k rd orig \<Longrightarrow>
   with_key k rd = with_key k orig"
proof -
  assume b: "0 < bs" "length rd \<le> bs" and s: "stable_blocks bs k rd orig"
  note len = stable_blocks_length [OF s]
  show ?thesis
  proof (cases "rd = []")
    case True
    with len show ?thesis by simp
  next
    case False
    with b s have "with_key k (take bs rd) = with_key k (take bs orig)"
      by (simp add: stable_blocks_unfold)
    with b len show ?thesis by simp
  qed
qed

lemma merge_pass_short: "length rd < bs \<Longrightarrow> merge_pass bs rd wr = wr"
  by (subst merge_pass.simps) simp

lemma merge_pass_unfold:
  "0 < bs \<Longrightarrow> bs \<le> length rd \<Longrightarrow>
   merge_pass bs rd wr =
     merge_blocks (take bs rd) (take bs (drop bs rd)) @
     merge_pass bs (drop (2 * bs) rd) (drop (2 * bs) wr)"
proof -
  assume "0 < bs" "bs \<le> length rd"
  then have c: "\<not> (bs = 0 \<or> length rd < bs)" by auto
  show ?thesis by (subst merge_pass.simps) (simp only: c if_False)
qed

lemma merge_pass_preserves:
  fixes rd wr orig :: "('k::linorder, 't) keyed list"
  assumes bs: "0 < bs"
  shows "length wr = length rd \<Longrightarrow> stable_blocks bs k rd orig \<Longrightarrow> sorted_blocks bs rd \<Longrightarrow>
    bs = 1 \<or> stable_blocks (2 * bs) k wr orig \<Longrightarrow>
    stable_blocks (2 * bs) k (merge_pass bs rd wr) orig \<and>
    sorted_blocks (2 * bs) (merge_pass bs rd wr) \<and>
    length (merge_pass bs rd wr) = length rd"
proof (induction "length rd" arbitrary: rd wr orig rule: less_induct)
  case less
  note len = stable_blocks_length [OF less.prems(2)]
  show ?case
  proof (cases "length rd < bs")
    case True
    then have mp: "merge_pass bs rd wr = wr" by (rule merge_pass_short)
    have "stable_blocks (2 * bs) k wr orig"
    proof (cases "bs = 1")
      case True
      with \<open>length rd < bs\<close> less.prems(1) len have "wr = []" "orig = []" by simp_all
      then show ?thesis by (simp add: stable_blocks_Nil)
    next
      case False
      with less.prems(4) show ?thesis by simp
    qed
    moreover have "sorted_blocks (2 * bs) wr"
      using True less.prems(1) by (intro sorted_blocks_short) simp
    ultimately show ?thesis using mp less.prems(1) by simp
  next
    case False
    then have ge: "bs \<le> length rd" by simp
    then have ne: "rd \<noteq> []" using bs by auto
    let ?L = "take bs rd"
    let ?R = "take bs (drop bs rd)"
    let ?M = "merge_blocks ?L ?R"
    let ?rest = "merge_pass bs (drop (2 * bs) rd) (drop (2 * bs) wr)"
    have mp: "merge_pass bs rd wr = ?M @ ?rest" by (rule merge_pass_unfold [OF bs ge])
    from stable_blocks_pair [OF bs less.prems(2)]
    have p: "with_key k ?L = with_key k (take bs orig)"
      "with_key k ?R = with_key k (take bs (drop bs orig))"
      "stable_blocks bs k (drop (2 * bs) rd) (drop (2 * bs) orig)"
      by simp_all
    from less.prems(3) bs ge have sl: "sorted (map key ?L)" "sorted_blocks bs (drop bs rd)"
      by (simp_all add: sorted_blocks_unfold)
    have sr: "sorted_blocks bs (drop (2 * bs) rd)"
    proof (cases "bs \<le> length (drop bs rd)")
      case True
      with sl(2) bs have "sorted_blocks bs (drop bs (drop bs rd))"
        by (simp add: sorted_blocks_unfold)
      then show ?thesis by (simp add: mult_2)
    next
      case False
      then show ?thesis using bs by (intro sorted_blocks_short) simp
    qed
    have w: "bs = 1 \<or> stable_blocks (2 * bs) k (drop (2 * bs) wr) (drop (2 * bs) orig)"
      using less.prems(4) bs by (auto intro: stable_blocks_drop)
    have "length (drop (2 * bs) rd) < length rd" using ne bs by simp
    from less.hyps [OF this _ p(3) sr w] less.prems(1)
    have ih: "stable_blocks (2 * bs) k ?rest (drop (2 * bs) orig)"
      "sorted_blocks (2 * bs) ?rest" "length ?rest = length (drop (2 * bs) rd)"
      by simp_all
    have lM: "length ?M = min (2 * bs) (length rd)" using ge by simp
    have short: "?rest = []" if "length rd < 2 * bs"
      using that ih(3) by simp
    have tk: "take (2 * bs) (?M @ ?rest) = ?M"
      using lM short by (cases "length rd < 2 * bs") simp_all
    have dr: "drop (2 * bs) (?M @ ?rest) = ?rest"
      using lM short by (cases "length rd < 2 * bs") simp_all
    have lr: "length (?M @ ?rest) = length rd"
      using lM ih(3) by simp
    have fM: "with_key k ?M = with_key k (take (2 * bs) orig)"
      using with_key_merge_blocks [OF sl(1), of k ?R] p(1,2) by (simp add: take_double)
    have st: "stable_blocks (2 * bs) k (?M @ ?rest) orig"
    proof -
      have "?M @ ?rest \<noteq> []" using lr ne by (metis length_0_conv)
      moreover have "0 < 2 * bs" using bs by simp
      ultimately show ?thesis
        using lr len fM ih(1) by (simp only: stable_blocks_unfold tk dr simp_thms)
    qed
    have so: "sorted_blocks (2 * bs) (?M @ ?rest)"
    proof (cases "length rd < 2 * bs")
      case True
      then show ?thesis using lr by (intro sorted_blocks_short) simp
    next
      case False
      then have full: "bs \<le> length (drop bs rd)" by simp
      with sl(2) bs have "sorted (map key ?R)" by (simp add: sorted_blocks_unfold)
      with sl(1) have "sorted (map key ?M)" by (rule sorted_merge_blocks)
      moreover have "0 < 2 * bs" "2 * bs \<le> length (?M @ ?rest)" using bs lr False by simp_all
      ultimately show ?thesis
        using ih(2) by (simp only: sorted_blocks_unfold tk dr simp_thms)
    qed
    from st so lr show ?thesis by (simp only: mp simp_thms)
  qed
qed

lemma MergeSort_loop_done:
  "\<not> bs < n \<Longrightarrow> MergeSort_loop n store rdT wrT bs wh = Inr (store, rdT)"
  by (subst MergeSort_loop.simps) simp

lemma MergeSort_loop_step:
  "bs < n \<Longrightarrow> 0 < bs \<Longrightarrow>
   MergeSort_pass n bs (n div bs) (store rdT) (store wrT) 0 wh = Inr (written, wh') \<Longrightarrow>
   MergeSort_loop n store rdT wrT bs wh =
     MergeSort_loop n (store(wrT := written)) wrT rdT (bs + bs) 0"
  by (subst MergeSort_loop.simps) simp

lemma MergeSort_loop_stable:
  fixes store :: "('k::linorder, 't) keyed store"
  shows "rdT \<noteq> wrT \<Longrightarrow> 0 < bs \<Longrightarrow> length (store rdT) = n \<Longrightarrow> length (store wrT) = n \<Longrightarrow>
    \<forall>k. stable_blocks bs k (store rdT) orig \<Longrightarrow> sorted_blocks bs (store rdT) \<Longrightarrow>
    bs = 1 \<or> (\<forall>k. stable_blocks bs k (store wrT) orig) \<Longrightarrow>
    \<exists>store' rd'. MergeSort_loop n store rdT wrT bs 0 = Inr (store', rd') \<and>
      length (store' rd') = n \<and> length (store' Collection) = length (store Collection) \<and>
      (\<forall>k. with_key k (store' rd') = with_key k orig)"
proof (induction "n - bs" arbitrary: store rdT wrT bs rule: less_induct)
  case less
  show ?case
  proof (cases "bs < n")
    case False
    then have "MergeSort_loop n store rdT wrT bs 0 = Inr (store, rdT)"
      by (rule MergeSort_loop_done)
    moreover have "\<forall>k. with_key k (store rdT) = with_key k orig"
      using False less.prems(2,3,5) by (auto intro: stable_blocks_whole)
    ultimately show ?thesis using less.prems(3) by simp
  next
    case True
    let ?rd = "store rdT" and ?wr = "store wrT"
    let ?written = "merge_pass bs ?rd ?wr"
    from MergeSort_pass_refines [OF less.prems(2,3,4), of 0]
    obtain wh' where pass: "MergeSort_pass n bs (n div bs) ?rd ?wr 0 0 = Inr (?written, wh')"
      by auto
    let ?store1 = "store(wrT := ?written)"
    have step: "MergeSort_loop n store rdT wrT bs 0 =
        MergeSort_loop n ?store1 wrT rdT (bs + bs) 0"
      by (rule MergeSort_loop_step [OF True less.prems(2) pass])
    have pres: "stable_blocks (2 * bs) k ?written orig \<and> sorted_blocks (2 * bs) ?written \<and>
        length ?written = length ?rd" for k
    proof (rule merge_pass_preserves [OF less.prems(2)])
      show "length ?wr = length ?rd" using less.prems(3,4) by simp
      show "stable_blocks bs k ?rd orig" using less.prems(5) by simp
      show "sorted_blocks bs ?rd" by (rule less.prems(6))
      show "bs = 1 \<or> stable_blocks (2 * bs) k ?wr orig"
        using less.prems(7) less.prems(2) by (auto intro: stable_blocks_coarsen)
    qed
    have s1: "?store1 wrT = ?written" "?store1 rdT = ?rd"
      using less.prems(1) by simp_all
    have "\<exists>store' rd'. MergeSort_loop n ?store1 wrT rdT (bs + bs) 0 = Inr (store', rd') \<and>
      length (store' rd') = n \<and> length (store' Collection) = length (?store1 Collection) \<and>
      (\<forall>k. with_key k (store' rd') = with_key k orig)"
    proof (rule less.hyps)
      show "n - (bs + bs) < n - bs" using True less.prems(2) by simp
      show "wrT \<noteq> rdT" using less.prems(1) by simp
      show "0 < bs + bs" using less.prems(2) by simp
      show "length (?store1 wrT) = n" using pres less.prems(3) by (simp only: s1)
      show "length (?store1 rdT) = n" using less.prems(3) by (simp only: s1)
      show "\<forall>k. stable_blocks (bs + bs) k (?store1 wrT) orig"
        using pres by (simp only: s1 mult_2 [symmetric] simp_thms)
      show "sorted_blocks (bs + bs) (?store1 wrT)"
        using pres by (simp only: s1 mult_2 [symmetric] simp_thms)
      show "bs + bs = 1 \<or> (\<forall>k. stable_blocks (bs + bs) k (?store1 rdT) orig)"
        using less.prems(5) less.prems(2) stable_blocks_coarsen [of bs _ ?rd orig]
        by (simp only: s1 mult_2 [symmetric]) blast
    qed
    moreover have "length (?store1 Collection) = length (store Collection)"
      using pres less.prems(3,4) by (cases "wrT = Collection") simp_all
    ultimately show ?thesis unfolding step by auto
  qed
qed

section \<open>Merge sort: stability\<close>

lemma MergeSort_copy_back_correct:
  "length (store rdT) = n \<Longrightarrow> length (store Collection) = n \<Longrightarrow> i \<le> n \<Longrightarrow>
   take i (store Collection) = take i (store rdT) \<Longrightarrow>
   \<exists>store'. MergeSort_copy_back n store rdT i = Inr store' \<and> store' Collection = store rdT"
proof (induction "n - i" arbitrary: store i)
  case 0
  then have "i = n" by simp
  with 0 have "store Collection = store rdT" by simp
  moreover have "MergeSort_copy_back n store rdT i = Inr store"
    using \<open>i = n\<close> by (subst MergeSort_copy_back.simps) simp
  ultimately show ?case by simp
next
  case (Suc m)
  then have i: "i < n" by simp
  let ?store1 = "store(Collection := (store Collection)[i := store rdT ! i])"
  have step: "MergeSort_copy_back n store rdT i = MergeSort_copy_back n ?store1 rdT (i + 1)"
    using i Suc.prems(1,2) by (subst MergeSort_copy_back.simps) simp
  have r1: "?store1 rdT = store rdT"
    by (cases "rdT = Collection") simp_all
  have c1: "?store1 Collection = (store Collection)[i := store rdT ! i]" by simp
  have "\<exists>store'. MergeSort_copy_back n ?store1 rdT (i + 1) = Inr store' \<and>
      store' Collection = ?store1 rdT"
  proof (rule Suc.hyps(1))
    show "m = n - (i + 1)" using Suc.hyps(2) by simp
    show "length (?store1 rdT) = n" using Suc.prems(1) by (simp only: r1)
    show "length (?store1 Collection) = n" using Suc.prems(2) by (simp only: c1 length_list_update)
    show "i + 1 \<le> n" using i by simp
    show "take (i + 1) (?store1 Collection) = take (i + 1) (?store1 rdT)"
      using i Suc.prems(1,2,4)
      by (simp only: r1 c1) (simp add: take_Suc_conv_app_nth)
  qed
  then show ?case by (simp only: step r1)
qed

lemma MergeSort_keeps_keys:
  fixes collection :: "('k::linorder, 't) keyed list"
  shows "\<exists>result. MergeSort init collection = Inr result \<and>
           MergeSort_range init collection = Inr result \<and>
           (\<forall>k. with_key k result = with_key k collection)"
proof -
  define n where "n = length collection"
  define store :: "('k, 't) keyed store" where
    "store = (\<lambda>b. case b of Collection \<Rightarrow> collection | WorkingArea \<Rightarrow> replicate n init)"
  have s: "store Collection = collection" "store WorkingArea = replicate n init"
    by (simp_all add: store_def)
  have "\<exists>store' rd'. MergeSort_loop n store Collection WorkingArea 1 0 = Inr (store', rd') \<and>
      length (store' rd') = n \<and> length (store' Collection) = length (store Collection) \<and>
      (\<forall>k. with_key k (store' rd') = with_key k collection)"
  proof (rule MergeSort_loop_stable)
    show "Collection \<noteq> WorkingArea" by simp
    show "0 < (1 :: nat)" by simp
    show "length (store Collection) = n" by (simp add: s n_def)
    show "length (store WorkingArea) = n" by (simp add: s)
    show "\<forall>k. stable_blocks 1 k (store Collection) collection"
      by (simp add: s stable_blocks_refl)
    show "sorted_blocks 1 (store Collection)" by (rule sorted_blocks_one)
    show "(1 :: nat) = 1 \<or> (\<forall>k. stable_blocks 1 k (store WorkingArea) collection)" by simp
  qed
  then obtain store' rd' where
    l: "MergeSort_loop n store Collection WorkingArea 1 0 = Inr (store', rd')"
      "length (store' rd') = n" "length (store' Collection) = n"
      "\<forall>k. with_key k (store' rd') = with_key k collection"
    by (auto simp: s n_def)
  have m1: "MergeSort init collection = Inr (store' rd')"
    using l(1) by (simp add: MergeSort_def Let_def n_def [symmetric] store_def [symmetric])
  from MergeSort_copy_back_correct [OF l(2,3), of 0]
  obtain store'' where c: "MergeSort_copy_back n store' rd' 0 = Inr store''"
      "store'' Collection = store' rd'"
    by auto
  have m2: "MergeSort_range init collection = Inr (store' rd')"
    using l(1) c
    by (simp add: MergeSort_range_def Let_def n_def [symmetric] store_def [symmetric])
  from m1 m2 l(4) show ?thesis by blast
qed

text \<open>
  C5. \<^verbatim>\<open>MergeSort\<close> is stable. For elements compared by key only, both overloads return,
  and for every key the elements with that key stand in the result in the order they
  had in the input. In a merge step with both blocks non-empty the head of the right
  block is written exactly when it is strictly smaller than the head of the left block;
  otherwise, ties included, the head of the left block is written. The specification's
  example \<open>[(5, a), (3, b), (5, c)]\<close> is sorted to \<open>[(3, b), (5, a), (5, c)]\<close>.
\<close>

theorem MergeSort_stable:
  fixes collection :: "('k::linorder, 't) keyed list"
    and readTarget writeTarget :: "'a::ord list"
  shows "(\<exists>result. MergeSort init collection = Inr result \<and>
            MergeSort_range init collection = Inr result \<and>
            (\<forall>k. filter (\<lambda>x. key x = k) result = filter (\<lambda>x. key x = k) collection)) \<and>
         (first \<noteq> lastp \<and> firstNext \<noteq> lastNext \<and> first < length readTarget \<and>
          firstNext < length readTarget \<and> writeHead < length writeTarget \<longrightarrow>
            MergeSort_merge readTarget writeTarget first lastp firstNext lastNext writeHead =
              (if readTarget ! firstNext < readTarget ! first then
                 MergeSort_merge readTarget (writeTarget[writeHead := readTarget ! firstNext])
                   first lastp (firstNext + 1) lastNext (writeHead + 1)
               else
                 MergeSort_merge readTarget (writeTarget[writeHead := readTarget ! first])
                   (first + 1) lastp firstNext lastNext (writeHead + 1))) \<and>
         MergeSort (Keyed 0 []) [Keyed (5 :: nat) ''a'', Keyed 3 ''b'', Keyed 5 ''c''] =
           Inr [Keyed 3 ''b'', Keyed 5 ''a'', Keyed 5 ''c'']"
proof (intro conjI impI)
  show "\<exists>result. MergeSort init collection = Inr result \<and>
            MergeSort_range init collection = Inr result \<and>
            (\<forall>k. filter (\<lambda>x. key x = k) result = filter (\<lambda>x. key x = k) collection)"
    using MergeSort_keeps_keys [of init collection] by (simp add: with_key_def)
next
  assume "first \<noteq> lastp \<and> firstNext \<noteq> lastNext \<and> first < length readTarget \<and>
          firstNext < length readTarget \<and> writeHead < length writeTarget"
  then show "MergeSort_merge readTarget writeTarget first lastp firstNext lastNext writeHead =
              (if readTarget ! firstNext < readTarget ! first then
                 MergeSort_merge readTarget (writeTarget[writeHead := readTarget ! firstNext])
                   first lastp (firstNext + 1) lastNext (writeHead + 1)
               else
                 MergeSort_merge readTarget (writeTarget[writeHead := readTarget ! first])
                   (first + 1) lastp firstNext lastNext (writeHead + 1))"
    by (intro MergeSort_merge_compare) simp_all
next
  show "MergeSort (Keyed 0 []) [Keyed (5 :: nat) ''a'', Keyed 3 ''b'', Keyed 5 ''c''] =
           Inr [Keyed 3 ''b'', Keyed 5 ''a'', Keyed 5 ''c'']"
    by code_simp
qed

theorem MergeSort_stable_witness:
  "(0 :: nat) \<noteq> 1 \<and> (1 :: nat) \<noteq> 2 \<and>
   (0 :: nat) < length [Keyed (5 :: nat) ''a'', Keyed 5 ''c''] \<and>
   (1 :: nat) < length [Keyed (5 :: nat) ''a'', Keyed 5 ''c''] \<and>
   (0 :: nat) < length [Keyed (0 :: nat) [], Keyed 0 []] \<and>
   \<not> [Keyed (5 :: nat) ''a'', Keyed 5 ''c''] ! 1 < [Keyed (5 :: nat) ''a'', Keyed 5 ''c''] ! 0 \<and>
   MergeSort_merge [Keyed (5 :: nat) ''a'', Keyed 5 ''c''] [Keyed 0 [], Keyed 0 []] 0 1 1 2 0 =
     MergeSort_merge [Keyed (5 :: nat) ''a'', Keyed 5 ''c''] [Keyed 5 ''a'', Keyed 0 []] 1 1 1 2 1 \<and>
   (\<exists>result. MergeSort (Keyed 0 []) [Keyed (5 :: nat) ''a'', Keyed 3 ''b'', Keyed 5 ''c''] = Inr result \<and>
      filter (\<lambda>x. key x = 5) result = [Keyed 5 ''a'', Keyed 5 ''c''])"
  using MergeSort_stable [of "Keyed 0 []" "[Keyed (5 :: nat) ''a'', Keyed 3 ''b'', Keyed 5 ''c'']"
      0 1 1 2 "[Keyed (5 :: nat) ''a'', Keyed 5 ''c'']" 0 "[Keyed (0 :: nat) [], Keyed 0 []]"]
  by (simp add: less_keyed_def)

end
